theory Spec2Isabelle
  imports Main "HOL-Library.Word"
begin

section \<open>Data model of \<open>MediaDebugFastDumpImp\<close>\<close>

text \<open>
  \<open>size_t\<close> is the 64-bit unsigned integer of the platforms the driver is built for; every
  \<open>+\<close>, \<open>*\<close> and \<open>-\<close> on it below wraps at \<open>2 ^ 64\<close>, as in the C++ source. Enumerations
  whose declarations live in other headers (\<open>MOS_GFXRES_TYPE\<close>, \<open>MOS_FORMAT\<close>) are compared by
  their integer values, which is what \<open><\<close> on a C++ enumeration does.
\<close>

type_synonym size_t = "64 word"
type_synonym uint32_t = "32 word"

text \<open>
  The memory types and the tile type the source names. A value-initialised \<open>ResInfo\<close> is
  given the memory type \<open>MOS_MEMPOOL_VIDEOMEMORY\<close>; \<open>m_allocate\<close> overwrites it before the
  backend reads it.
\<close>

datatype Mos_MemPool = MOS_MEMPOOL_VIDEOMEMORY | MOS_MEMPOOL_SYSTEMMEMORY

datatype MOS_TILE_TYPE = MOS_TILE_LINEAR

text \<open>
  \<open>ResInfo\<close> is \<open>MOS_ALLOC_GFXRES_PARAMS\<close>, with the fields the source reads or writes.
\<close>

record ResInfo =
  Type :: int
  dwWidth :: uint32_t
  dwHeight :: uint32_t
  TileType :: MOS_TILE_TYPE
  Format :: int
  bCacheable :: bool
  dwMemType :: Mos_MemPool

subsection \<open>The comparator of the pool's map\<close>

text \<open>
  \<open>ResInfoCmp::operator()\<close>: a chain of conditional expressions, each of which answers
  \<open>true\<close> as soon as one field of \<open>a\<close> is smaller than the same field of \<open>b\<close>.
\<close>

definition ResInfoCmp :: "ResInfo \<Rightarrow> ResInfo \<Rightarrow> bool" where
  "ResInfoCmp a b =
     (if Type a < Type b then True
      else if dwWidth a < dwWidth b then True
      else if dwHeight a < dwHeight b then True
      else if Format a < Format b then True
      else False)"

text \<open>The order the data model asks for: lexicographic on (Type, dwWidth, dwHeight, Format).\<close>

definition lexicographic_less :: "ResInfo \<Rightarrow> ResInfo \<Rightarrow> bool" where
  "lexicographic_less a b =
     (Type a < Type b \<or>
      (Type a = Type b \<and> (dwWidth a < dwWidth b \<or>
        (dwWidth a = dwWidth b \<and> (dwHeight a < dwHeight b \<or>
          (dwHeight a = dwHeight b \<and> Format a < Format b))))))"

definition shape :: "int \<Rightarrow> uint32_t \<Rightarrow> uint32_t \<Rightarrow> int \<Rightarrow> ResInfo" where
  "shape t w h f =
     \<lparr>Type = t, dwWidth = w, dwHeight = h, TileType = MOS_TILE_LINEAR, Format = f,
      bCacheable = True, dwMemType = MOS_MEMPOOL_VIDEOMEMORY\<rparr>"

subsection \<open>Buffers, tiers, configuration\<close>

text \<open>
  A \<open>MOS_RESOURCE\<close> is opaque to this class but for its GMM resource info, whose only use is
  \<open>GetSizeMainSurface()\<close>: \<open>None\<close> is the null pointer, \<open>Some n\<close> a resource whose main
  surface has \<open>n\<close> bytes (after the \<open>static_cast<size_t>\<close>).
\<close>

record MOS_RESOURCE =
  handle :: nat
  pGmmResInfo :: "size_t option"

text \<open>\<open>MOS_SURFACE\<close>: the three fields of \<open>details\<close> that \<open>AddTask\<close> reads.\<close>

record MOS_SURFACE =
  dwWidth_details :: uint32_t
  dwHeight_details :: uint32_t
  Format_details :: int

text \<open>\<open>struct Res\<close>: one staging buffer.\<close>

record Res =
  occupied :: bool
  res :: MOS_RESOURCE
  size_res :: size_t
  offset :: size_t
  name :: string

text \<open>\<open>struct MemMng\<close>: one memory tier.\<close>

record MemMng =
  policy :: Mos_MemPool
  cap :: size_t
  usage :: size_t

text \<open>\<open>MediaDebugFastDump::Config\<close>, as the constructor reads it.\<close>

record Config =
  write2File :: bool
  write2Trace :: bool
  informOnError :: bool
  allowDataLoss :: bool
  maxPercentSharedMem :: size_t
  maxPercentLocalMem :: size_t
  samplingTime :: size_t
  samplingInterval :: size_t

text \<open>The two fields of the adapter info that the constructor reads, as \<open>size_t\<close>.\<close>

record ADAPTER_INFO =
  SystemSharedMemory :: size_t
  DedicatedVideoMemory :: size_t

text \<open>
  The constructor installs one of several closures in each of \<open>m_2CacheTask\<close>, \<open>m_allocate\<close>,
  \<open>m_write\<close> and \<open>m_writeError\<close>. The state records which one; the functions of the same
  names below run the closure that was installed.
\<close>

datatype m_2CacheTask_closure = CaptureAlways | CaptureInWindow
datatype m_allocate_closure = TwoTiers | FirstTierOnly
datatype m_write_closure = ToFile | ToTrace | ToFileAndTrace | ToNothing
datatype m_writeError_closure = WriteMarker | Ignore

text \<open>
  The members of the class. Buffers are shared between the pool and the queue
  (\<open>std::shared_ptr<Res>\<close>), so they live in a store: \<open>store\<close> maps an address to the
  \<open>Res\<close> it holds and \<open>store_next\<close> is the next address \<open>std::make_shared\<close> hands out. The
  queue is a list of addresses, front first.

  The pool is a \<open>std::map\<close> from \<open>ResInfo\<close> to a vector of buffers, ordered by \<open>ResInfoCmp\<close>.
  \<open>m_resPool\<close> holds its nodes, each a key with the addresses of its bucket, in the order the
  map created them. A node stays where it is as long as the map lives, so that a reference to
  the bucket of a node (\<open>resArray\<close> in \<open>AddTask\<close>) is the position of the node in this list.
  The list keeps every node the map has created, also one that the map no longer reaches from
  its root.
\<close>

record Imp =
  m_allowDataLoss :: bool
  m_memMng1st :: MemMng
  m_memMng2nd :: MemMng
  m_samplingTime :: size_t
  m_samplingInterval :: size_t
  m_resPool :: "(ResInfo \<times> nat list) list"
  store :: "nat \<Rightarrow> Res"
  store_next :: nat
  m_resQueue :: "nat list"
  m_2CacheTask_sel :: m_2CacheTask_closure
  m_allocate_sel :: m_allocate_closure
  m_write_sel :: m_write_closure
  m_writeError_sel :: m_writeError_closure
  m_ready4Dump :: bool
  m_stopScheduler :: bool

subsection \<open>The collaborators\<close>

text \<open>
  What the code outside this class answers during one operation: the clock
  (\<open>duration_cast<MS>(Clock::now() - m_startTP)\<close>), the resource backend and the media copy
  interface. A failing call answers \<open>None\<close> or \<open>False\<close>.

  The last field belongs to the C++ library. \<open>std::map\<close> asks for a comparator that orders the
  keys, and \<open>ResInfoCmp\<close> does not order every set of keys. When it does not order the keys of
  the map together with the key looked up, what \<open>m_resPool[resInfo]\<close> answers is not fixed by
  the source: it depends on the implementation of the map and on the shape its tree has taken.
  \<open>unordered_lookup\<close> is that answer, given the keys of the nodes and the key looked up: the
  position of a node, or a number that is no position when the map inserts a new node. The
  model supposes no more of the map than that the call returns a reference to the bucket of
  one of its nodes.
\<close>

record Backend =
  elapsed :: size_t
  GetResType :: "MOS_RESOURCE \<Rightarrow> int"
  pfnGetResourceInfo :: "MOS_RESOURCE \<Rightarrow> MOS_SURFACE option"
  pfnAllocateResource :: "ResInfo \<Rightarrow> MOS_RESOURCE option"
  SurfaceCopy :: "MOS_RESOURCE \<Rightarrow> MOS_RESOURCE \<Rightarrow> bool"
  pfnLockResource :: "MOS_RESOURCE \<Rightarrow> bool"
  unordered_lookup :: "ResInfo list \<Rightarrow> ResInfo \<Rightarrow> nat"

text \<open>
  What reaches the sinks: the name, the data and the number of bytes. The data is either the
  static byte \<open>dummy = 0\<close> of \<open>m_writeError\<close> or the locked data of a buffer plus an offset.
\<close>

datatype data_ptr = Dummy | LockedData MOS_RESOURCE size_t

datatype sink_event =
  Write2File string data_ptr size_t
  | MOS_TraceDataDump string data_ptr size_t

subsection \<open>The constructor\<close>

definition MediaDebugFastDumpImp :: "ADAPTER_INFO option \<Rightarrow> Config option \<Rightarrow> Imp" where
  "MediaDebugFastDumpImp adapter cfg =
     (let w2f = (case cfg of None \<Rightarrow> True | Some c \<Rightarrow> write2File c);
          w2t = (case cfg of None \<Rightarrow> False | Some c \<Rightarrow> write2Trace c);
          inform = (case cfg of None \<Rightarrow> True | Some c \<Rightarrow> informOnError c);
          loss = (case cfg of None \<Rightarrow> True | Some c \<Rightarrow> allowDataLoss c);
          pctShared = (case cfg of None \<Rightarrow> 75 | Some c \<Rightarrow> maxPercentSharedMem c);
          pctLocal = (case cfg of None \<Rightarrow> 0 | Some c \<Rightarrow> maxPercentLocalMem c);
          st = (case cfg of None \<Rightarrow> 0 | Some c \<Rightarrow> samplingTime c);
          si = (case cfg of None \<Rightarrow> 0 | Some c \<Rightarrow> samplingInterval c);
          cap1 = (case adapter of None \<Rightarrow> 0 | Some a \<Rightarrow> SystemSharedMemory a div 100 * pctShared);
          cap2 = (case adapter of None \<Rightarrow> 0 | Some a \<Rightarrow> DedicatedVideoMemory a div 100 * pctLocal)
      in \<lparr>m_allowDataLoss = loss,
          m_memMng1st = \<lparr>policy = MOS_MEMPOOL_SYSTEMMEMORY,
                         cap = (if cap1 \<noteq> 0 then cap1 else - 1), usage = 0\<rparr>,
          m_memMng2nd = \<lparr>policy = MOS_MEMPOOL_VIDEOMEMORY, cap = cap2, usage = 0\<rparr>,
          m_samplingTime = st,
          m_samplingInterval = si,
          m_resPool = [],
          store = (\<lambda>_. \<lparr>occupied = False, res = \<lparr>handle = 0, pGmmResInfo = None\<rparr>,
                           size_res = 0, offset = 0, name = []\<rparr>),
          store_next = 0,
          m_resQueue = [],
          m_2CacheTask_sel = (if st + si = 0 then CaptureAlways else CaptureInWindow),
          m_allocate_sel = (if cap2 > 0 then TwoTiers else FirstTierOnly),
          m_write_sel = (if w2f \<and> \<not> w2t then ToFile
                         else if \<not> w2f \<and> w2t then ToTrace
                         else if w2f \<and> w2t then ToFileAndTrace
                         else ToNothing),
          m_writeError_sel = (if inform then WriteMarker else Ignore),
          m_ready4Dump = True,
          m_stopScheduler = False\<rparr>)"

subsection \<open>The closures\<close>

text \<open>\<open>m_2CacheTask\<close>, given the elapsed time the clock answers.\<close>

definition m_2CacheTask :: "Imp \<Rightarrow> size_t \<Rightarrow> bool" where
  "m_2CacheTask s el =
     (case m_2CacheTask_sel s of
        CaptureAlways \<Rightarrow> True
      | CaptureInWindow \<Rightarrow> el mod (m_samplingTime s + m_samplingInterval s) \<le> m_samplingTime s)"

text \<open>
  \<open>m_write\<close>. With both sinks the file is written by an asynchronous task while the trace is
  written by the caller, and the caller waits for the task: the two events are concurrent and
  the list gives them in the order they are started.
\<close>

definition m_write :: "Imp \<Rightarrow> string \<Rightarrow> data_ptr \<Rightarrow> size_t \<Rightarrow> sink_event list" where
  "m_write s nm data sz =
     (case m_write_sel s of
        ToFile \<Rightarrow> [Write2File nm data sz]
      | ToTrace \<Rightarrow> [MOS_TraceDataDump nm data sz]
      | ToFileAndTrace \<Rightarrow> [Write2File nm data sz, MOS_TraceDataDump nm data sz]
      | ToNothing \<Rightarrow> [])"

text \<open>
  \<open>m_writeError\<close>: the marker is written by a detached thread that calls \<open>m_write\<close> with the
  address of \<open>dummy\<close> and \<open>sizeof(dummy)\<close>, the size of a \<open>uint8_t\<close>.
\<close>

definition m_writeError :: "Imp \<Rightarrow> string \<Rightarrow> string \<Rightarrow> sink_event list" where
  "m_writeError s nm error =
     (case m_writeError_sel s of
        WriteMarker \<Rightarrow> m_write s (nm @ ''.'' @ error) Dummy 1
      | Ignore \<Rightarrow> [])"

text \<open>
  The end of both \<open>m_allocate\<close> closures: the backend allocates with the memory type chosen,
  and on success the tier whose policy is that memory type is charged.
\<close>

definition m_allocate_charge ::
  "Backend \<Rightarrow> ResInfo \<Rightarrow> size_t \<Rightarrow> Imp \<Rightarrow> MOS_RESOURCE option \<times> ResInfo \<times> Imp" where
  "m_allocate_charge be resInfo resSize s =
     (case pfnAllocateResource be resInfo of
        Some r \<Rightarrow>
          (Some r, resInfo,
           s\<lparr>m_memMng1st := (m_memMng1st s)
                \<lparr>usage := usage (m_memMng1st s) +
                   (if dwMemType resInfo = policy (m_memMng1st s) then resSize else 0)\<rparr>,
             m_memMng2nd := (m_memMng2nd s)
                \<lparr>usage := usage (m_memMng2nd s) +
                   (if dwMemType resInfo = policy (m_memMng2nd s) then resSize else 0)\<rparr>\<rparr>)
      | None \<Rightarrow> (None, resInfo, s))"

text \<open>
  \<open>m_allocate\<close>: the answer is the allocated resource (\<open>None\<close> for \<open>false\<close>), the \<open>resInfo\<close> as
  the closure leaves it, and the state. The one-tier closure charges the first tier without
  comparing policies.
\<close>

definition m_allocate ::
  "Backend \<Rightarrow> ResInfo \<Rightarrow> size_t \<Rightarrow> Imp \<Rightarrow> MOS_RESOURCE option \<times> ResInfo \<times> Imp" where
  "m_allocate be resInfo resSize s =
     (case m_allocate_sel s of
        TwoTiers \<Rightarrow>
          if usage (m_memMng1st s) + resSize > cap (m_memMng1st s) then
            if usage (m_memMng2nd s) + resSize > cap (m_memMng2nd s) then (None, resInfo, s)
            else m_allocate_charge be (resInfo\<lparr>dwMemType := policy (m_memMng2nd s)\<rparr>) resSize s
          else m_allocate_charge be (resInfo\<lparr>dwMemType := policy (m_memMng1st s)\<rparr>) resSize s
      | FirstTierOnly \<Rightarrow>
          if usage (m_memMng1st s) + resSize > cap (m_memMng1st s) then (None, resInfo, s)
          else (case pfnAllocateResource be (resInfo\<lparr>dwMemType := policy (m_memMng1st s)\<rparr>) of
                  Some r \<Rightarrow>
                    (Some r, resInfo\<lparr>dwMemType := policy (m_memMng1st s)\<rparr>,
                     s\<lparr>m_memMng1st := (m_memMng1st s)
                          \<lparr>usage := usage (m_memMng1st s) + resSize\<rparr>\<rparr>)
                | None \<Rightarrow> (None, resInfo\<lparr>dwMemType := policy (m_memMng1st s)\<rparr>, s)))"

subsection \<open>\<open>AddTask\<close>\<close>

text \<open>
  How a call of \<open>AddTask\<close> ends: it returns at the sampling gate, it returns after a call of
  \<open>m_writeError\<close>, it waits on the condition variable (with the size of the resource and the
  bucket \<open>resArray\<close> it waits for), or it has put the buffer at an address into the queue.
\<close>

datatype status = Skipped | Dropped | Blocked size_t nat | Staged nat

text \<open>
  What a call does besides changing the members: the calls of \<open>m_writeError\<close> (name and error)
  and the successful allocations of the backend (memory type asked for and bytes charged).
\<close>

datatype event = ErrorMarker string string | Allocation Mos_MemPool size_t

text \<open>\<open>std::find_if\<close> over a bucket for the first buffer with \<open>occupied == false\<close>.\<close>

fun find_unoccupied :: "(nat \<Rightarrow> Res) \<Rightarrow> nat list \<Rightarrow> nat option" where
  "find_unoccupied st [] = None"
| "find_unoccupied st (a # as) = (if occupied (st a) = False then Some a else find_unoccupied st as)"

text \<open>
  The buffers of the bucket \<open>resArray\<close> refers to. The source holds references to nodes of the
  map only; a position that is no node has no buffers.
\<close>

definition bucket :: "Imp \<Rightarrow> nat \<Rightarrow> nat list" where
  "bucket s resArray =
     (if resArray < length (m_resPool s) then snd (m_resPool s ! resArray) else [])"

text \<open>Lines 319 to 329: the copy into the buffer \<open>resIt\<close> points to, and the enqueueing.\<close>

definition AddTask_copy ::
  "Backend \<Rightarrow> MOS_RESOURCE \<Rightarrow> string \<Rightarrow> size_t \<Rightarrow> size_t \<Rightarrow> size_t \<Rightarrow> nat \<Rightarrow> Imp
    \<Rightarrow> status \<times> event list \<times> Imp" where
  "AddTask_copy be r nm dumpSize off resSize resIt s =
     (if \<not> SurfaceCopy be r (res (store s resIt)) then
        (Dropped, [ErrorMarker nm ''surface_copy_failed''], s)
      else
        (Staged resIt, [],
         s\<lparr>store := (store s)
              (resIt := (store s resIt)
                 \<lparr>occupied := True,
                  size_res := (if dumpSize = 0 then resSize - off else dumpSize),
                  offset := off,
                  name := nm\<rparr>),
           m_resQueue := m_resQueue s @ [resIt]\<rparr>))"

text \<open>
  Lines 300 to 310, each time the waiting thread is woken: the predicate of the wait searches
  the bucket \<open>resArray\<close> (the reference taken before the wait) again, and the thread goes on
  with the copy when it finds a free buffer.
\<close>

definition AddTask_wake ::
  "Backend \<Rightarrow> MOS_RESOURCE \<Rightarrow> string \<Rightarrow> size_t \<Rightarrow> size_t \<Rightarrow> size_t \<Rightarrow> nat \<Rightarrow> Imp
    \<Rightarrow> status \<times> event list \<times> Imp" where
  "AddTask_wake be r nm dumpSize off resSize resArray s =
     (case find_unoccupied (store s) (bucket s resArray) of
        None \<Rightarrow> (Blocked resSize resArray, [], s)
      | Some resIt \<Rightarrow> AddTask_copy be r nm dumpSize off resSize resIt s)"

text \<open>
  \<open>ResInfoCmp\<close> orders a list of keys when it never answers true for two of them in both
  directions. On such keys it is the strict order of the keys by all four fields at once, and
  two keys are equivalent for the map (neither is less than the other) exactly when the four
  fields are equal.
\<close>

definition keys_ordered :: "ResInfo list \<Rightarrow> bool" where
  "keys_ordered ks \<longleftrightarrow>
     (\<forall>a \<in> set ks. \<forall>b \<in> set ks. \<not> (ResInfoCmp a b \<and> ResInfoCmp b a))"

text \<open>The position of the first key of a list that is equivalent to \<open>k\<close>.\<close>

fun find_equiv :: "ResInfo \<Rightarrow> ResInfo list \<Rightarrow> nat option" where
  "find_equiv k [] = None"
| "find_equiv k (k' # ks) =
     (if \<not> ResInfoCmp k' k \<and> \<not> ResInfoCmp k k' then Some 0
      else map_option Suc (find_equiv k ks))"

text \<open>
  \<open>auto &resArray = m_resPool[resInfo]\<close>: the node the map answers, and the map. Where
  \<open>ResInfoCmp\<close> orders the keys of the nodes and \<open>resInfo\<close>, the map works as \<open>std::map\<close>
  is specified: it answers the node whose key is equivalent to \<open>resInfo\<close>, and when there is
  none it inserts a node with the key \<open>resInfo\<close> and an empty bucket. Where it does not order
  them the answer is \<open>unordered_lookup\<close>: one of the nodes, or a new node with an empty
  bucket.
\<close>

definition resPool_at :: "Backend \<Rightarrow> Imp \<Rightarrow> ResInfo \<Rightarrow> nat \<times> Imp" where
  "resPool_at be s resInfo =
     (let keys = map fst (m_resPool s);
          node = (if keys_ordered (resInfo # keys) then
                    (case find_equiv resInfo keys of Some i \<Rightarrow> i | None \<Rightarrow> length keys)
                  else unordered_lookup be keys resInfo)
      in if node < length keys then (node, s)
         else (length keys, s\<lparr>m_resPool := m_resPool s @ [(resInfo, [])]\<rparr>))"

text \<open>
  \<open>resArray.emplace_back(std::move(tmpRes))\<close>: the \<open>Res\<close> made by \<open>std::make_shared\<close>, which
  holds the resource the backend allocated and is not occupied, gets the next address of the
  store and is appended to the bucket \<open>resArray\<close> refers to.
\<close>

definition emplace_back :: "Imp \<Rightarrow> nat \<Rightarrow> MOS_RESOURCE \<Rightarrow> Imp" where
  "emplace_back s resArray tmpRes =
     s\<lparr>store := (store s)
          (store_next s := \<lparr>occupied = False, res = tmpRes, size_res = 0, offset = 0, name = []\<rparr>),
       store_next := Suc (store_next s),
       m_resPool := (m_resPool s)
          [resArray := (fst (m_resPool s ! resArray), bucket s resArray @ [store_next s])]\<rparr>"

text \<open>
  Lines 278 to 317: the bucket the map answers for the shape; then reuse of a free buffer,
  allocation of a new one, wait, or discard.
\<close>

definition AddTask_pool ::
  "Backend \<Rightarrow> MOS_RESOURCE \<Rightarrow> string \<Rightarrow> size_t \<Rightarrow> size_t \<Rightarrow> size_t \<Rightarrow> ResInfo \<Rightarrow> Imp
    \<Rightarrow> status \<times> event list \<times> Imp" where
  "AddTask_pool be r nm dumpSize off resSize resInfo s =
     (let (resArray, s1) = resPool_at be s resInfo
      in case find_unoccupied (store s1) (bucket s1 resArray) of
           Some resIt \<Rightarrow> AddTask_copy be r nm dumpSize off resSize resIt s1
         | None \<Rightarrow>
             (case m_allocate be resInfo resSize s1 of
                (Some tmpRes, resInfo', s2) \<Rightarrow>
                  (let (st, evs, s4) =
                         AddTask_copy be r nm dumpSize off resSize (store_next s2)
                           (emplace_back s2 resArray tmpRes)
                   in (st, Allocation (dwMemType resInfo') resSize # evs, s4))
              | (None, resInfo', s2) \<Rightarrow>
                  if \<not> m_allowDataLoss s2 \<and> bucket s2 resArray \<noteq> [] then
                    (Blocked resSize resArray, [], s2)
                  else (Dropped, [ErrorMarker nm ''discarded''], s2)))"

text \<open>
  Lines 252 to 276: the shape of the resource. The backend fills \<open>details\<close>; the source presets
  \<open>details.Format\<close> before the call for a resource that is not a buffer, which only the
  backend reads.
\<close>

definition AddTask_resInfo ::
  "Backend \<Rightarrow> MOS_RESOURCE \<Rightarrow> string \<Rightarrow> size_t \<Rightarrow> size_t \<Rightarrow> size_t \<Rightarrow> Imp
    \<Rightarrow> status \<times> event list \<times> Imp" where
  "AddTask_resInfo be r nm dumpSize off resSize s =
     (case pfnGetResourceInfo be r of
        None \<Rightarrow> (Dropped, [ErrorMarker nm ''get_resource_info_failed''], s)
      | Some details \<Rightarrow>
          AddTask_pool be r nm dumpSize off resSize
            \<lparr>Type = GetResType be r,
             dwWidth = dwWidth_details details,
             dwHeight = dwHeight_details details,
             TileType = MOS_TILE_LINEAR,
             Format = Format_details details,
             bCacheable = True,
             dwMemType = MOS_MEMPOOL_VIDEOMEMORY\<rparr> s)"

text \<open>\<open>AddTask\<close>, up to the point where it returns or starts to wait.\<close>

definition AddTask ::
  "Backend \<Rightarrow> MOS_RESOURCE \<Rightarrow> string \<Rightarrow> size_t \<Rightarrow> size_t \<Rightarrow> Imp \<Rightarrow> status \<times> event list \<times> Imp" where
  "AddTask be r nm dumpSize off s =
     (if m_2CacheTask s (elapsed be) = False then (Skipped, [], s)
      else
        (case pGmmResInfo r of
           None \<Rightarrow> (Dropped, [ErrorMarker nm ''get_surface_size_failed''], s)
         | Some resSize \<Rightarrow>
             if resSize < off + dumpSize then
               (Dropped, [ErrorMarker nm ''incorrect_size_offset''], s)
             else AddTask_resInfo be r nm dumpSize off resSize s))"

text \<open>What the calls of \<open>m_writeError\<close> among the events of a call send to the sinks.\<close>

fun markers :: "Imp \<Rightarrow> event list \<Rightarrow> sink_event list" where
  "markers s [] = []"
| "markers s (ErrorMarker nm error # evs) = m_writeError s nm error @ markers s evs"
| "markers s (Allocation p n # evs) = markers s evs"

subsection \<open>The words of the specification, and inputs to run the code on\<close>

text \<open>
  The sampling gate as section 4.1 of the specification words it, on mathematical integers:
  always true when both durations are zero, otherwise the elapsed time modulo the sum of the
  two windows compared with the active window.
\<close>

definition shouldCapture_spec :: "nat \<Rightarrow> nat \<Rightarrow> nat \<Rightarrow> bool" where
  "shouldCapture_spec activeWindow idleWindow el =
     (if activeWindow = 0 \<and> idleWindow = 0 then True
      else el mod (activeWindow + idleWindow) \<le> activeWindow)"

text \<open>
  The capacity of a tier as section 4.2 words it: the memory size times the percentage,
  divided by 100.
\<close>

definition capacity_spec :: "nat \<Rightarrow> nat \<Rightarrow> nat" where
  "capacity_spec memory percent = memory * percent div 100"

text \<open>The size of what a sink receives.\<close>

definition sink_size :: "sink_event \<Rightarrow> size_t" where
  "sink_size e = (case e of Write2File nm d n \<Rightarrow> n | MOS_TraceDataDump nm d n \<Rightarrow> n)"

text \<open>The two error tags of the size check of \<open>AddTask\<close>.\<close>

definition size_marker :: "event \<Rightarrow> bool" where
  "size_marker e =
     (case e of
        ErrorMarker nm error \<Rightarrow>
          error = ''incorrect_size_offset'' \<or> error = ''get_surface_size_failed''
      | Allocation p n \<Rightarrow> False)"

text \<open>The key \<open>AddTask\<close> builds from what the backend answers.\<close>

definition resInfo_of :: "Backend \<Rightarrow> MOS_RESOURCE \<Rightarrow> MOS_SURFACE \<Rightarrow> ResInfo" where
  "resInfo_of be r details =
     \<lparr>Type = GetResType be r,
      dwWidth = dwWidth_details details,
      dwHeight = dwHeight_details details,
      TileType = MOS_TILE_LINEAR,
      Format = Format_details details,
      bCacheable = True,
      dwMemType = MOS_MEMPOOL_VIDEOMEMORY\<rparr>"

text \<open>
  Concrete configurations, adapters, resources and a backend whose calls all succeed and whose
  map inserts a new node whenever the comparator does not order the keys.
\<close>

definition config ::
  "bool \<Rightarrow> bool \<Rightarrow> bool \<Rightarrow> bool \<Rightarrow> size_t \<Rightarrow> size_t \<Rightarrow> size_t \<Rightarrow> size_t \<Rightarrow> Config" where
  "config toFile toTrace inform loss pctShared pctLocal st si =
     \<lparr>write2File = toFile, write2Trace = toTrace, informOnError = inform, allowDataLoss = loss,
      maxPercentSharedMem = pctShared, maxPercentLocalMem = pctLocal,
      samplingTime = st, samplingInterval = si\<rparr>"

definition adapter_info :: "size_t \<Rightarrow> size_t \<Rightarrow> ADAPTER_INFO" where
  "adapter_info shared dedicated =
     \<lparr>SystemSharedMemory = shared, DedicatedVideoMemory = dedicated\<rparr>"

definition resource :: "nat \<Rightarrow> size_t \<Rightarrow> MOS_RESOURCE" where
  "resource h n = \<lparr>handle = h, pGmmResInfo = Some n\<rparr>"

definition backend_ok :: Backend where
  "backend_ok =
     \<lparr>elapsed = 130,
      GetResType = (\<lambda>_. 0),
      pfnGetResourceInfo =
        (\<lambda>_. Some \<lparr>dwWidth_details = 64, dwHeight_details = 1, Format_details = 0\<rparr>),
      pfnAllocateResource = (\<lambda>_. Some \<lparr>handle = 1, pGmmResInfo = Some 4096\<rparr>),
      SurfaceCopy = (\<lambda>_ _. True),
      pfnLockResource = (\<lambda>_. True),
      unordered_lookup = (\<lambda>keys _. length keys)\<rparr>"

text \<open>
  A pipeline whose first tier holds 750 bytes and which has no second tier, the same pipeline
  after one submission of a 600-byte resource has been staged (so that its only buffer is
  occupied and a second one does not fit), and the key of the resources of \<open>backend_ok\<close>.
\<close>

definition small_pipeline :: "bool \<Rightarrow> Imp" where
  "small_pipeline loss =
     MediaDebugFastDumpImp (Some (adapter_info 1000 0))
       (Some (config True False True loss 75 0 0 0))"

definition one_staged :: "bool \<Rightarrow> Imp" where
  "one_staged loss =
     snd (snd (AddTask backend_ok (resource 7 600) ''first'' 0 0 (small_pipeline loss)))"

definition key_ok :: ResInfo where
  "key_ok = resInfo_of backend_ok (resource 7 600)
              \<lparr>dwWidth_details = 64, dwHeight_details = 1, Format_details = 0\<rparr>"

text \<open>
  A backend that allocates buffers of 16 bytes, and the pipeline with the default configuration
  after a submission of a 16-byte resource with offset \<open>2 ^ 64 - 1\<close> and dump size 2.
\<close>

definition backend_16 :: Backend where
  "backend_16 = backend_ok\<lparr>pfnAllocateResource := (\<lambda>_. Some (resource 1 16))\<rparr>"

definition staged_out_of_bounds :: Imp where
  "staged_out_of_bounds =
     snd (snd (AddTask backend_16 (resource 7 16) ''frame'' 2 (- 1)
       (MediaDebugFastDumpImp None None)))"

text \<open>
  Resources of the two shapes that \<open>ResInfoCmp\<close> does not order: the backend answers the
  shape (type 0, width 1) for the resource with handle 1 and the shape (type 1, width 0) for
  every other resource. \<open>two_shapes_staged\<close> is a pipeline that does not allow data loss,
  whose first tier holds 1500 bytes, after one 600-byte resource of each shape has been staged.
\<close>

definition backend_two_shapes :: Backend where
  "backend_two_shapes =
     backend_ok
       \<lparr>GetResType := (\<lambda>r. if handle r = 1 then 0 else 1),
        pfnGetResourceInfo :=
          (\<lambda>r. Some \<lparr>dwWidth_details = (if handle r = 1 then 1 else 0),
                      dwHeight_details = 0, Format_details = 0\<rparr>)\<rparr>"

definition two_shapes_staged :: Imp where
  "two_shapes_staged =
     snd (snd (AddTask backend_two_shapes (resource 2 600) ''second'' 0 0
       (snd (snd (AddTask backend_two_shapes (resource 1 600) ''first'' 0 0
          (MediaDebugFastDumpImp (Some (adapter_info 2000 0))
             (Some (config True False True False 75 0 0 0))))))))"

subsection \<open>The scheduler, the workers and the producers\<close>

text \<open>
  A job is what \<open>DoDump\<close> reads of a buffer: its address, name, offset and size.
\<close>

type_synonym job = "nat \<times> string \<times> size_t \<times> size_t"

definition job_of :: "Imp \<Rightarrow> nat \<Rightarrow> job" where
  "job_of s a = (a, name (store s a), offset (store s a), size_res (store s a))"

text \<open>\<open>DoDump\<close>: lock the buffer, write its data or report that the lock failed.\<close>

definition DoDump :: "Backend \<Rightarrow> Imp \<Rightarrow> nat \<Rightarrow> sink_event list" where
  "DoDump be s a =
     (if pfnLockResource be (res (store s a)) then
        m_write s (name (store s a)) (LockedData (res (store s a)) (offset (store s a)))
          (size_res (store s a))
      else m_writeError s (name (store s a)) ''lock_failed'')"

text \<open>
  The loop at the end of \<open>ScheduleTasks\<close> (lines 433 to 438), run with the mutex held: dump
  the front of the queue, release its buffer, pop. It answers the state, the jobs it dumped and
  what it sent to the sinks.
\<close>

function drain :: "Backend \<Rightarrow> Imp \<Rightarrow> Imp \<times> job list \<times> sink_event list" where
  "drain be s =
     (if m_resQueue s = [] then (s, [], [])
      else
        (let front = hd (m_resQueue s);
             (s', jobs, out) =
               drain be (s\<lparr>store := (store s)(front := (store s front)\<lparr>occupied := False\<rparr>),
                            m_resQueue := tl (m_resQueue s)\<rparr>)
         in (s', job_of s front # jobs, DoDump be s front @ out)))"
  by pat_completeness auto
termination
  by (relation "measure (\<lambda>(be, s). length (m_resQueue s))") auto

declare drain.simps [simp del]

text \<open>
  Where the scheduler thread is in \<open>ScheduleTasks\<close>: in the loop, after the \<open>break\<close> (waiting
  for its future), or past the final loop.
\<close>

datatype sched_pc = InLoop | WaitingFuture | Stopped

text \<open>
  A producer that waits in \<open>AddTask\<close>: the arguments of its call, the size of its resource and
  its reference \<open>resArray\<close> to the bucket.
\<close>

type_synonym waiter = "MOS_RESOURCE \<times> string \<times> size_t \<times> size_t \<times> size_t \<times> nat"

text \<open>
  The whole pipeline: the members; the scheduler thread with its local \<open>future\<close> (the number
  of the task it started last); the asynchronous tasks that were started and have not
  finished, each with its number, the buffer \<open>qf\<close> it captured and whether its \<open>DoDump\<close> has
  returned; the producers that wait. The rest is what an observer sees: the jobs in the order
  they were put into the queue, the jobs in the order \<open>DoDump\<close> ran on them, what reached the
  sinks, and the calls of the error reporter and the allocations.
\<close>

record Sys =
  imp :: Imp
  sched :: sched_pc
  future :: "nat option"
  workers :: "(nat \<times> nat \<times> bool) list"
  next_task :: nat
  waiters :: "waiter list"
  submitted :: "job list"
  dumped :: "job list"
  sunk :: "sink_event list"
  reported :: "event list"

definition start :: "ADAPTER_INFO option \<Rightarrow> Config option \<Rightarrow> Sys" where
  "start adapter cfg =
     \<lparr>imp = MediaDebugFastDumpImp adapter cfg, sched = InLoop, future = None, workers = [],
      next_task = 0, waiters = [], submitted = [], dumped = [], sunk = [], reported = []\<rparr>"

text \<open>
  The steps of the threads. Each one is what a thread does while it holds the mutex, or one
  call that needs no mutex:
  \<^item> \<open>Submit\<close>: a producer calls \<open>AddTask\<close>, up to its return or its wait;
  \<^item> \<open>Wake\<close>: a waiting producer wakes up (notified by a task that has finished or by
    another producer, or spuriously) and evaluates the predicate of its wait;
  \<^item> \<open>Dispatch\<close>: the scheduler, woken with \<open>m_ready4Dump\<close> and a queue that is not empty
    and without the stop flag, starts an asynchronous task on the front of the queue;
  \<^item> \<open>RunDump\<close>: a task runs \<open>DoDump(qf)\<close>;
  \<^item> \<open>Finish\<close>: a task whose dump has returned releases the front of the queue, pops it and
    sets \<open>m_ready4Dump\<close>;
  \<^item> \<open>Destroy\<close>: the destructor sets \<open>m_stopScheduler\<close>;
  \<^item> \<open>Break\<close>: the scheduler sees the stop flag and leaves its loop;
  \<^item> \<open>Shutdown\<close>: \<open>future.wait()\<close> has returned (no future, or its task has finished) and
    the scheduler drains the queue.
  A step that is not possible in a state answers \<open>None\<close>.
\<close>

datatype action =
  Submit Backend MOS_RESOURCE string size_t size_t
  | Wake Backend nat
  | Dispatch
  | RunDump Backend nat
  | Finish nat
  | Destroy
  | Break
  | Shutdown Backend

text \<open>
  What the observer and the list of waiting producers gain from a call of \<open>AddTask\<close> (or
  from the wake-up of a waiting producer) that ended with \<open>result\<close>.
\<close>

definition after_AddTask ::
  "Sys \<Rightarrow> MOS_RESOURCE \<Rightarrow> string \<Rightarrow> size_t \<Rightarrow> size_t \<Rightarrow> status \<times> event list \<times> Imp \<Rightarrow> Sys" where
  "after_AddTask s r nm dumpSize off result =
     (case result of
        (st, evs, i') \<Rightarrow>
          s\<lparr>imp := i',
            reported := reported s @ evs,
            sunk := sunk s @ markers i' evs,
            submitted := submitted s @ (case st of Staged a \<Rightarrow> [job_of i' a] | _ \<Rightarrow> []),
            waiters := waiters s @
              (case st of Blocked resSize resArray \<Rightarrow> [(r, nm, dumpSize, off, resSize, resArray)]
               | _ \<Rightarrow> [])\<rparr>)"

fun step :: "action \<Rightarrow> Sys \<Rightarrow> Sys option" where
  "step (Submit be r nm dumpSize off) s =
     Some (after_AddTask s r nm dumpSize off (AddTask be r nm dumpSize off (imp s)))"
| "step (Wake be n) s =
     (if n < length (waiters s) then
        (case waiters s ! n of
           (r, nm, dumpSize, off, resSize, resArray) \<Rightarrow>
             Some (after_AddTask (s\<lparr>waiters := take n (waiters s) @ drop (Suc n) (waiters s)\<rparr>)
                     r nm dumpSize off
                     (AddTask_wake be r nm dumpSize off resSize resArray (imp s))))
      else None)"
| "step Dispatch s =
     (if sched s = InLoop \<and> \<not> m_stopScheduler (imp s) \<and>
         m_ready4Dump (imp s) \<and> m_resQueue (imp s) \<noteq> [] then
        Some (s\<lparr>imp := (imp s)\<lparr>m_ready4Dump := False\<rparr>,
                workers := workers s @ [(next_task s, hd (m_resQueue (imp s)), False)],
                future := Some (next_task s),
                next_task := Suc (next_task s)\<rparr>)
      else None)"
| "step (RunDump be t) s =
     (case map_of (workers s) t of
        Some (qf, False) \<Rightarrow>
          Some (s\<lparr>workers := map (\<lambda>w. if fst w = t then (t, qf, True) else w) (workers s),
                  dumped := dumped s @ [job_of (imp s) qf],
                  sunk := sunk s @ DoDump be (imp s) qf\<rparr>)
      | _ \<Rightarrow> None)"
| "step (Finish t) s =
     (case map_of (workers s) t of
        Some (qf, True) \<Rightarrow>
          (if m_resQueue (imp s) = [] then None
           else
             Some (s\<lparr>imp := (imp s)
                       \<lparr>store := (store (imp s))
                          (hd (m_resQueue (imp s)) :=
                             (store (imp s) (hd (m_resQueue (imp s))))\<lparr>occupied := False\<rparr>),
                        m_resQueue := tl (m_resQueue (imp s)),
                        m_ready4Dump := True\<rparr>,
                     workers := filter (\<lambda>w. fst w \<noteq> t) (workers s)\<rparr>))
      | _ \<Rightarrow> None)"
| "step Destroy s = Some (s\<lparr>imp := (imp s)\<lparr>m_stopScheduler := True\<rparr>\<rparr>)"
| "step Break s =
     (if sched s = InLoop \<and> m_stopScheduler (imp s) then Some (s\<lparr>sched := WaitingFuture\<rparr>)
      else None)"
| "step (Shutdown be) s =
     (if sched s = WaitingFuture \<and>
         (case future s of None \<Rightarrow> True | Some t \<Rightarrow> map_of (workers s) t = None) then
        (case drain be (imp s) of
           (i', jobs, out) \<Rightarrow>
             Some (s\<lparr>imp := i', dumped := dumped s @ jobs, sunk := sunk s @ out,
                     sched := Stopped\<rparr>))
      else None)"

text \<open>A run of the pipeline: a list of steps, each possible in the state it starts in.\<close>

fun run :: "action list \<Rightarrow> Sys \<Rightarrow> Sys option" where
  "run [] s = Some s"
| "run (a # as) s = (case step a s of None \<Rightarrow> None | Some s' \<Rightarrow> run as s')"

text \<open>The bytes charged for the allocations of one memory type, in \<open>size_t\<close>.\<close>

fun charged :: "Mos_MemPool \<Rightarrow> event list \<Rightarrow> size_t" where
  "charged p [] = 0"
| "charged p (ErrorMarker nm error # evs) = charged p evs"
| "charged p (Allocation p' n # evs) = (if p' = p then n else 0) + charged p evs"

text \<open>The same sum without the wrap-around of \<open>size_t\<close>.\<close>

fun charged_total :: "Mos_MemPool \<Rightarrow> event list \<Rightarrow> nat" where
  "charged_total p [] = 0"
| "charged_total p (ErrorMarker nm error # evs) = charged_total p evs"
| "charged_total p (Allocation p' n # evs) = (if p' = p then unat n else 0) + charged_total p evs"

text \<open>
  The jobs of the queue that no \<open>DoDump\<close> has run on: the queue, without its front when a task
  has dumped the front and not popped it yet.
\<close>

definition pending :: "Sys \<Rightarrow> nat list" where
  "pending s =
     (if list_ex (\<lambda>w. snd (snd w)) (workers s) then tl (m_resQueue (imp s))
      else m_resQueue (imp s))"

text \<open>
  The buffers and the queue fit together: the queue holds no buffer twice; every buffer of the
  queue exists and is occupied; every occupied buffer is in the queue; every buffer of the pool
  exists.
\<close>

definition store_inv :: "Imp \<Rightarrow> bool" where
  "store_inv s \<longleftrightarrow>
     distinct (m_resQueue s) \<and>
     (\<forall>a \<in> set (m_resQueue s). a < store_next s \<and> occupied (store s a)) \<and>
     (\<forall>a < store_next s. occupied (store s a) \<longrightarrow> a \<in> set (m_resQueue s)) \<and>
     (\<forall>n \<in> set (m_resPool s). \<forall>a \<in> set (snd n). a < store_next s)"

text \<open>
  The scheduler and its tasks fit together: at most one task; \<open>m_ready4Dump\<close> exactly when
  there is none; a task is the one the scheduler's future stands for, and the buffer it
  captured is the front of the queue; no task is left once the scheduler has stopped.
\<close>

definition sched_inv :: "Sys \<Rightarrow> bool" where
  "sched_inv s \<longleftrightarrow>
     length (workers s) \<le> 1 \<and>
     (m_ready4Dump (imp s) \<longleftrightarrow> workers s = []) \<and>
     (\<forall>w \<in> set (workers s).
        future s = Some (fst w) \<and> m_resQueue (imp s) \<noteq> [] \<and>
        hd (m_resQueue (imp s)) = fst (snd w)) \<and>
     (sched s = Stopped \<longrightarrow> workers s = [])"

text \<open>
  The tiers fit the allocations: the policies are the two memory types the constructor sets,
  each usage is the sum charged for its memory type, and no usage exceeds its capacity.
\<close>

definition tier_inv :: "Sys \<Rightarrow> bool" where
  "tier_inv s \<longleftrightarrow>
     policy (m_memMng1st (imp s)) = MOS_MEMPOOL_SYSTEMMEMORY \<and>
     policy (m_memMng2nd (imp s)) = MOS_MEMPOOL_VIDEOMEMORY \<and>
     usage (m_memMng1st (imp s)) = charged MOS_MEMPOOL_SYSTEMMEMORY (reported s) \<and>
     usage (m_memMng2nd (imp s)) = charged MOS_MEMPOOL_VIDEOMEMORY (reported s) \<and>
     usage (m_memMng1st (imp s)) \<le> cap (m_memMng1st (imp s)) \<and>
     usage (m_memMng2nd (imp s)) \<le> cap (m_memMng2nd (imp s))"

text \<open>The fields of the state that \<open>m_allocate\<close> leaves alone: all but the two usages.\<close>

definition same_but_usage :: "Imp \<Rightarrow> Imp \<Rightarrow> bool" where
  "same_but_usage s s' \<longleftrightarrow>
     m_resQueue s' = m_resQueue s \<and> store s' = store s \<and> store_next s' = store_next s \<and>
     m_resPool s' = m_resPool s \<and> m_ready4Dump s' = m_ready4Dump s \<and>
     m_stopScheduler s' = m_stopScheduler s \<and> m_allowDataLoss s' = m_allowDataLoss s \<and>
     m_allocate_sel s' = m_allocate_sel s \<and>
     policy (m_memMng1st s') = policy (m_memMng1st s) \<and>
     cap (m_memMng1st s') = cap (m_memMng1st s) \<and>
     policy (m_memMng2nd s') = policy (m_memMng2nd s) \<and>
     cap (m_memMng2nd s') = cap (m_memMng2nd s)"

text \<open>
  What a producer may do to the members, from its call (or its wake-up) in state \<open>s\<close> to the
  point where it returns or waits with \<open>result\<close>: it leaves the flags of the scheduler, the
  policies and the capacities alone; it appends the buffer it staged to the queue, if any; it
  keeps the buffers and the queue fitting together and does not touch a buffer of the queue;
  it charges the tiers what its allocations say, within the capacities.
\<close>

definition producer_frame :: "Imp \<Rightarrow> status \<times> event list \<times> Imp \<Rightarrow> bool" where
  "producer_frame s result \<longleftrightarrow>
     (case result of
        (st, evs, s') \<Rightarrow>
          m_ready4Dump s' = m_ready4Dump s \<and>
          m_stopScheduler s' = m_stopScheduler s \<and>
          m_resQueue s' = m_resQueue s @ (case st of Staged a \<Rightarrow> [a] | _ \<Rightarrow> []) \<and>
          policy (m_memMng1st s') = policy (m_memMng1st s) \<and>
          cap (m_memMng1st s') = cap (m_memMng1st s) \<and>
          policy (m_memMng2nd s') = policy (m_memMng2nd s) \<and>
          cap (m_memMng2nd s') = cap (m_memMng2nd s) \<and>
          (store_inv s \<longrightarrow>
             store_inv s' \<and> (\<forall>b \<in> set (m_resQueue s). store s' b = store s b)) \<and>
          (policy (m_memMng1st s) \<noteq> policy (m_memMng2nd s) \<longrightarrow>
             usage (m_memMng1st s') =
               usage (m_memMng1st s) + charged (policy (m_memMng1st s)) evs \<and>
             usage (m_memMng2nd s') =
               usage (m_memMng2nd s) + charged (policy (m_memMng2nd s)) evs \<and>
             (usage (m_memMng1st s) \<le> cap (m_memMng1st s) \<and>
              usage (m_memMng2nd s) \<le> cap (m_memMng2nd s) \<longrightarrow>
                usage (m_memMng1st s') \<le> cap (m_memMng1st s') \<and>
                usage (m_memMng2nd s') \<le> cap (m_memMng2nd s'))))"

text \<open>
  The queue and the two histories fit together: the jobs put into the queue are the jobs dumped
  so far, in the same order, followed by the jobs still to dump.
\<close>

definition fifo_inv :: "Sys \<Rightarrow> bool" where
  "fifo_inv s \<longleftrightarrow> submitted s = dumped s @ map (job_of (imp s)) (pending s)"

text \<open>
  A task whose \<open>DoDump\<close> has returned has dumped the buffer it captured: its job is the last
  one dumped.
\<close>

definition done_inv :: "Sys \<Rightarrow> bool" where
  "done_inv s \<longleftrightarrow>
     (\<forall>w \<in> set (workers s).
        snd (snd w) \<longrightarrow> dumped s \<noteq> [] \<and> last (dumped s) = job_of (imp s) (fst (snd w)))"

definition pipeline_inv :: "Sys \<Rightarrow> bool" where
  "pipeline_inv s \<longleftrightarrow>
     store_inv (imp s) \<and> sched_inv s \<and> tier_inv s \<and> fifo_inv s \<and> done_inv s"

text \<open>
  A run to try the pipeline on: an adapter with 1000 bytes of shared and 10000 bytes of
  dedicated memory, 75 and 10 percent of them (750 and 1000 bytes), two submissions of 600-byte
  resources (one buffer from each tier), the dump of the first, the destructor in the middle of
  it, and the end of the loop of the scheduler.
\<close>

definition demo_start :: Sys where
  "demo_start =
     start (Some (adapter_info 1000 10000)) (Some (config True False True True 75 10 0 0))"

definition demo_run :: "action list" where
  "demo_run =
     [Submit backend_ok (resource 7 600) ''first'' 0 0,
      Submit backend_ok (resource 8 600) ''second'' 4 0,
      Dispatch,
      RunDump backend_ok 0,
      Destroy,
      Finish 0,
      Break]"

definition demo_state :: Sys where
  "demo_state = the (run demo_run demo_start)"

text \<open>
  A run that leaves the only buffer of a small pipeline busy: the pipeline of
  \<open>small_pipeline\<close> without data loss, one submission of a 600-byte resource, its dispatch
  and its dump. The task has not released the buffer yet.
\<close>

definition busy_start :: Sys where
  "busy_start =
     start (Some (adapter_info 1000 0)) (Some (config True False True False 75 0 0 0))"

definition busy_run :: "action list" where
  "busy_run =
     [Submit backend_ok (resource 7 600) ''first'' 0 0,
      Dispatch,
      RunDump backend_ok 0]"

definition busy_state :: Sys where
  "busy_state = the (run busy_run busy_start)"

section \<open>The shape comparator\<close>

lemma ResInfoCmp_any_field:
  "ResInfoCmp a b =
     (Type a < Type b \<or> dwWidth a < dwWidth b \<or> dwHeight a < dwHeight b \<or> Format a < Format b)"
  by (simp add: ResInfoCmp_def)

lemma lexicographic_less_asym: "\<not> (lexicographic_less a b \<and> lexicographic_less b a)"
  by (auto simp: lexicographic_less_def)

text \<open>
  Claim C2. The comparator of the pool is claimed to be the lexicographic order on
  (Type, dwWidth, dwHeight, Format), hence strict. On the keys
  \<open>a = (Type 0, width 1, height 0, format 0)\<close> and \<open>b = (Type 1, width 0, height 0, format 0)\<close>
  the source's comparator answers true in both directions, and it answers true for
  \<open>(b, a)\<close> although \<open>b\<close> is lexicographically greater: the later fields are compared without
  checking that the earlier ones are equal.
\<close>

theorem ResInfoCmp_not_strict:
  "ResInfoCmp (shape 0 1 0 0) (shape 1 0 0 0) \<and>
   ResInfoCmp (shape 1 0 0 0) (shape 0 1 0 0) \<and>
   \<not> lexicographic_less (shape 1 0 0 0) (shape 0 1 0 0)"
  by (simp add: ResInfoCmp_def lexicographic_less_def shape_def)

section \<open>Capacities of the tiers\<close>

lemma unat_percent:
  fixes m p :: size_t
  assumes "unat p \<le> 100"
  shows "unat (m div 100 * p) = unat m div 100 * unat p"
proof -
  have d: "unat (m div 100) = unat m div 100"
    by (simp add: unat_div)
  have "unat m div 100 * unat p \<le> unat m div 100 * 100"
    using assms by (rule mult_le_mono2)
  also have "\<dots> \<le> unat m" by simp
  also have "\<dots> < 2 ^ 64" using unsigned_less [of m] by simp
  finally have "unat (m div 100) * unat p < 2 ^ LENGTH(64)" by (simp add: d)
  then have "unat (m div 100 * p) = unat (m div 100) * unat p"
    by (rule unat_mult_lem [THEN iffD1])
  then show ?thesis by (simp add: d)
qed

lemma percent_le_spec: "m div 100 * p \<le> capacity_spec m p"
proof -
  have "m div 100 * p * 100 \<le> m * p"
    by (simp add: mult.commute mult.left_commute)
  then show ?thesis
    unfolding capacity_spec_def
    by (metis div_le_mono nonzero_mult_div_cancel_right zero_neq_numeral)
qed

lemma percent_eq_spec: "100 dvd m \<Longrightarrow> m div 100 * p = capacity_spec m p"
  by (auto simp: capacity_spec_def elim!: dvdE)

lemma no_size_above_max: "\<not> (x :: size_t) > - 1"
  by (simp add: word_order.extremum not_less)

lemma m_allocate_FirstTierOnly:
  assumes "m_allocate_sel s = FirstTierOnly"
  shows "m_memMng2nd (snd (snd (m_allocate be ri sz s))) = m_memMng2nd s \<and>
         (fst (m_allocate be ri sz s) \<noteq> None \<longrightarrow>
            dwMemType (fst (snd (m_allocate be ri sz s))) = policy (m_memMng1st s))"
  using assms by (simp add: m_allocate_def split: option.splits)

text \<open>
  Claim C3, as amended. For a pipeline built from the adapter information \<open>adapter\<close> and the
  configuration \<open>cfg\<close> (without a configuration the percentages are 75 and 0): the capacity
  of each tier is the memory size divided by 100 (rounding down) and then multiplied by the
  percentage, and 0 when the adapter query fails; for a percentage of at most 100 the product
  does not wrap, is at most size times percentage divided by 100, and is equal to it when 100
  divides the size. A first-tier capacity of 0, whatever made it 0, is replaced by the largest
  \<open>size_t\<close>, and then no budget check of the first tier fails. A second tier of capacity 0
  installs the one-tier allocator, which never changes the second tier and asks the backend for
  memory of the first tier only.
\<close>

theorem tier_capacities:
  assumes "s = MediaDebugFastDumpImp adapter cfg"
    and "pctShared = (case cfg of None \<Rightarrow> 75 | Some c \<Rightarrow> maxPercentSharedMem c)"
    and "pctLocal = (case cfg of None \<Rightarrow> 0 | Some c \<Rightarrow> maxPercentLocalMem c)"
  shows "cap (m_memMng2nd s) =
           (case adapter of None \<Rightarrow> 0
            | Some a \<Rightarrow> DedicatedVideoMemory a div 100 * pctLocal) \<and>
         cap (m_memMng1st s) =
           (case adapter of None \<Rightarrow> - 1
            | Some a \<Rightarrow>
                if SystemSharedMemory a div 100 * pctShared = 0 then - 1
                else SystemSharedMemory a div 100 * pctShared) \<and>
         (\<forall>a. adapter = Some a \<and> unat pctLocal \<le> 100 \<longrightarrow>
            unat (cap (m_memMng2nd s)) = unat (DedicatedVideoMemory a) div 100 * unat pctLocal \<and>
            unat (cap (m_memMng2nd s)) \<le>
              capacity_spec (unat (DedicatedVideoMemory a)) (unat pctLocal) \<and>
            (100 dvd unat (DedicatedVideoMemory a) \<longrightarrow>
               unat (cap (m_memMng2nd s)) =
                 capacity_spec (unat (DedicatedVideoMemory a)) (unat pctLocal))) \<and>
         (\<forall>a. adapter = Some a \<and> unat pctShared \<le> 100 \<and>
               SystemSharedMemory a div 100 * pctShared \<noteq> 0 \<longrightarrow>
            unat (cap (m_memMng1st s)) = unat (SystemSharedMemory a) div 100 * unat pctShared \<and>
            unat (cap (m_memMng1st s)) \<le>
              capacity_spec (unat (SystemSharedMemory a)) (unat pctShared) \<and>
            (100 dvd unat (SystemSharedMemory a) \<longrightarrow>
               unat (cap (m_memMng1st s)) =
                 capacity_spec (unat (SystemSharedMemory a)) (unat pctShared))) \<and>
         (cap (m_memMng1st s) = - 1 \<longrightarrow> (\<forall>u resSize. \<not> u + resSize > cap (m_memMng1st s))) \<and>
         (cap (m_memMng2nd s) = 0 \<longrightarrow> m_allocate_sel s = FirstTierOnly) \<and>
         (m_allocate_sel s' = FirstTierOnly \<longrightarrow>
            m_memMng2nd (snd (snd (m_allocate be ri sz s'))) = m_memMng2nd s' \<and>
            (fst (m_allocate be ri sz s') \<noteq> None \<longrightarrow>
               dwMemType (fst (snd (m_allocate be ri sz s'))) = policy (m_memMng1st s')))"
proof -
  have c2: "cap (m_memMng2nd s) =
           (case adapter of None \<Rightarrow> 0
            | Some a \<Rightarrow> DedicatedVideoMemory a div 100 * pctLocal)"
    using assms by (simp add: MediaDebugFastDumpImp_def Let_def split: option.splits)
  have c1: "cap (m_memMng1st s) =
           (case adapter of None \<Rightarrow> - 1
            | Some a \<Rightarrow>
                if SystemSharedMemory a div 100 * pctShared = 0 then - 1
                else SystemSharedMemory a div 100 * pctShared)"
    using assms by (simp add: MediaDebugFastDumpImp_def Let_def split: option.splits)
  have n2: "\<forall>a. adapter = Some a \<and> unat pctLocal \<le> 100 \<longrightarrow>
            unat (cap (m_memMng2nd s)) = unat (DedicatedVideoMemory a) div 100 * unat pctLocal \<and>
            unat (cap (m_memMng2nd s)) \<le>
              capacity_spec (unat (DedicatedVideoMemory a)) (unat pctLocal) \<and>
            (100 dvd unat (DedicatedVideoMemory a) \<longrightarrow>
               unat (cap (m_memMng2nd s)) =
                 capacity_spec (unat (DedicatedVideoMemory a)) (unat pctLocal))"
    by (auto simp: c2 unat_percent percent_le_spec percent_eq_spec)
  have n1: "\<forall>a. adapter = Some a \<and> unat pctShared \<le> 100 \<and>
               SystemSharedMemory a div 100 * pctShared \<noteq> 0 \<longrightarrow>
            unat (cap (m_memMng1st s)) = unat (SystemSharedMemory a) div 100 * unat pctShared \<and>
            unat (cap (m_memMng1st s)) \<le>
              capacity_spec (unat (SystemSharedMemory a)) (unat pctShared) \<and>
            (100 dvd unat (SystemSharedMemory a) \<longrightarrow>
               unat (cap (m_memMng1st s)) =
                 capacity_spec (unat (SystemSharedMemory a)) (unat pctShared))"
    by (auto simp: c1 unat_percent percent_le_spec percent_eq_spec)
  have u: "cap (m_memMng1st s) = - 1 \<longrightarrow> (\<forall>u resSize. \<not> u + resSize > cap (m_memMng1st s))"
    by (simp add: no_size_above_max)
  have z: "cap (m_memMng2nd s) = 0 \<longrightarrow> m_allocate_sel s = FirstTierOnly"
    by (simp add: assms(1) MediaDebugFastDumpImp_def Let_def)
  note f = m_allocate_FirstTierOnly [of s' be ri sz]
  from c2 c1 n2 n1 u z f show ?thesis by blast
qed

theorem tier_capacities_witness:
  "cap (m_memMng1st (MediaDebugFastDumpImp (Some (adapter_info 1000 0))
          (Some (config True False True True 75 0 0 0)))) = 750 \<and>
   cap (m_memMng2nd (MediaDebugFastDumpImp (Some (adapter_info 1000 0))
          (Some (config True False True True 75 0 0 0)))) = 0 \<and>
   m_allocate_sel (MediaDebugFastDumpImp (Some (adapter_info 1000 0))
          (Some (config True False True True 75 0 0 0))) = FirstTierOnly"
  using tier_capacities
    [OF refl refl refl, where adapter = "Some (adapter_info 1000 0)"
       and cfg = "Some (config True False True True 75 0 0 0)"]
  by (simp add: adapter_info_def config_def)

text \<open>
  Claim C3 as stated fails twice. With 75 percent configured and a failing adapter query the
  first tier gets the largest \<open>size_t\<close> as its capacity, so it is unbounded. With 150 bytes
  of memory and 50 percent both tiers get 50 bytes, where size times percentage divided by 100
  is 75.
\<close>

theorem tier_capacities_differ:
  "cap (m_memMng1st (MediaDebugFastDumpImp None (Some (config True False True True 75 0 0 0)))) = - 1 \<and>
   unat (cap (m_memMng1st (MediaDebugFastDumpImp (Some (adapter_info 150 150))
            (Some (config True False True True 50 50 0 0))))) = 50 \<and>
   unat (cap (m_memMng2nd (MediaDebugFastDumpImp (Some (adapter_info 150 150))
            (Some (config True False True True 50 50 0 0))))) = 50 \<and>
   capacity_spec 150 50 = 75"
  by (simp add: MediaDebugFastDumpImp_def Let_def adapter_info_def config_def capacity_spec_def)

section \<open>The sampling gate\<close>

lemma gate_word:
  "m_2CacheTask (MediaDebugFastDumpImp adapter (Some c)) e =
     (samplingTime c + samplingInterval c = 0 \<or>
      e mod (samplingTime c + samplingInterval c) \<le> samplingTime c)"
  by (simp add: m_2CacheTask_def MediaDebugFastDumpImp_def Let_def)

lemma gate_nat:
  "m_2CacheTask (MediaDebugFastDumpImp adapter (Some c)) e =
     ((unat (samplingTime c) + unat (samplingInterval c)) mod 2 ^ 64 = 0 \<or>
       unat e mod ((unat (samplingTime c) + unat (samplingInterval c)) mod 2 ^ 64)
         \<le> unat (samplingTime c))"
  by (simp add: gate_word word_le_nat_alt unat_mod unat_word_ariths unat_eq_0 [symmetric]
      del: unat_eq_0)

text \<open>
  Claim C4, as amended. The gate of a pipeline built with configuration \<open>c\<close> answers true for
  every call when the sum of the two durations is 0 modulo \<open>2 ^ 64\<close> (so when both are zero),
  and otherwise exactly when the elapsed time modulo that sum is at most the active window.
  When the sum of the two durations does not exceed the range of \<open>size_t\<close> this is the gate of
  the specification. Without a configuration the gate is always true. A submission the gate
  rejects returns at once: no call of the error reporter, no allocation, the same state.
\<close>

theorem sampling_gate:
  "m_2CacheTask (MediaDebugFastDumpImp adapter (Some c)) e =
     ((unat (samplingTime c) + unat (samplingInterval c)) mod 2 ^ 64 = 0 \<or>
       unat e mod ((unat (samplingTime c) + unat (samplingInterval c)) mod 2 ^ 64)
         \<le> unat (samplingTime c)) \<and>
   (unat (samplingTime c) + unat (samplingInterval c) < 2 ^ 64 \<longrightarrow>
      m_2CacheTask (MediaDebugFastDumpImp adapter (Some c)) e =
        shouldCapture_spec (unat (samplingTime c)) (unat (samplingInterval c)) (unat e)) \<and>
   m_2CacheTask (MediaDebugFastDumpImp adapter None) e \<and>
   (\<not> m_2CacheTask s (elapsed be) \<longrightarrow> AddTask be r nm dumpSize off s = (Skipped, [], s))"
proof -
  have a: "m_2CacheTask (MediaDebugFastDumpImp adapter (Some c)) e =
     ((unat (samplingTime c) + unat (samplingInterval c)) mod 2 ^ 64 = 0 \<or>
       unat e mod ((unat (samplingTime c) + unat (samplingInterval c)) mod 2 ^ 64)
         \<le> unat (samplingTime c))"
    by (rule gate_nat)
  have b: "unat (samplingTime c) + unat (samplingInterval c) < 2 ^ 64 \<longrightarrow>
      m_2CacheTask (MediaDebugFastDumpImp adapter (Some c)) e =
        shouldCapture_spec (unat (samplingTime c)) (unat (samplingInterval c)) (unat e)"
    by (simp add: a shouldCapture_spec_def)
  have c: "m_2CacheTask (MediaDebugFastDumpImp adapter None) e"
    by (simp add: m_2CacheTask_def MediaDebugFastDumpImp_def Let_def)
  have d: "\<not> m_2CacheTask s (elapsed be) \<longrightarrow> AddTask be r nm dumpSize off s = (Skipped, [], s)"
    by (simp add: AddTask_def)
  from a b c d show ?thesis by blast
qed

theorem sampling_gate_witness:
  "m_2CacheTask (MediaDebugFastDumpImp None (Some (config True False True True 75 0 100 50))) 70 \<and>
   \<not> m_2CacheTask (MediaDebugFastDumpImp None (Some (config True False True True 75 0 100 50))) 130 \<and>
   shouldCapture_spec 100 50 70 \<and> \<not> shouldCapture_spec 100 50 130 \<and>
   AddTask backend_ok (resource 7 4096) ''frame'' 0 0
       (MediaDebugFastDumpImp None (Some (config True False True True 75 0 100 50))) =
     (Skipped, [], MediaDebugFastDumpImp None (Some (config True False True True 75 0 100 50)))"
  using sampling_gate [of None "config True False True True 75 0 100 50" 70
      "MediaDebugFastDumpImp None (Some (config True False True True 75 0 100 50))" backend_ok
      "resource 7 4096" "''frame''" 0 0]
    sampling_gate [of None "config True False True True 75 0 100 50" 130
      "MediaDebugFastDumpImp None (Some (config True False True True 75 0 100 50))" backend_ok
      "resource 7 4096" "''frame''" 0 0]
  by (simp add: config_def backend_ok_def shouldCapture_spec_def)

text \<open>
  Claim C4 as stated fails where the two durations are not both zero and their sum wraps to 0:
  with an active window of 1 ms and an idle window of \<open>2 ^ 64 - 1\<close> ms the constructor installs
  the gate that is always true, so a call 5 ms after creation is accepted, where the gate of the
  specification rejects it (5 modulo \<open>2 ^ 64\<close> is more than 1, and so is 5 modulo the
  \<open>size_t\<close> sum 0, which HOL reads as 5).
\<close>

theorem sampling_gate_wraps:
  "m_2CacheTask (MediaDebugFastDumpImp None (Some (config True False True True 75 0 1 (- 1)))) 5 \<and>
   \<not> shouldCapture_spec (unat (1 :: size_t)) (unat (- 1 :: size_t)) (unat (5 :: size_t)) \<and>
   \<not> (5 :: size_t) mod (1 + (- 1)) \<le> 1"
  by (simp add: gate_word config_def shouldCapture_spec_def
      unsigned_minus_1_eq_mask mask_eq_exp_minus_1 word_le_nat_alt)

section \<open>The size check of \<open>AddTask\<close>\<close>

lemma AddTask_copy_events:
  "AddTask_copy be r nm d off resSize a s = (st, evs, s') \<Longrightarrow>
     evs = [] \<or> evs = [ErrorMarker nm ''surface_copy_failed'']"
  by (auto simp: AddTask_copy_def split: if_splits)

lemma AddTask_copy_no_size_marker:
  "e \<in> set (fst (snd (AddTask_copy be r nm d off resSize a s))) \<Longrightarrow> \<not> size_marker e"
  by (auto simp: AddTask_copy_def size_marker_def split: if_splits)

lemma AddTask_pool_no_size_marker:
  "e \<in> set (fst (snd (AddTask_pool be r nm d off resSize resInfo s))) \<Longrightarrow> \<not> size_marker e"
proof -
  assume e: "e \<in> set (fst (snd (AddTask_pool be r nm d off resSize resInfo s)))"
  have c: "\<And>a s' st evs s''. AddTask_copy be r nm d off resSize a s' = (st, evs, s'') \<Longrightarrow>
              e \<in> set evs \<Longrightarrow> \<not> size_marker e"
    using AddTask_copy_no_size_marker by (metis fst_conv snd_conv)
  from e show ?thesis
    by (auto simp: AddTask_pool_def Let_def
        split: option.splits prod.splits if_splits
        dest: c AddTask_copy_no_size_marker)
      (simp_all add: size_marker_def)
qed

lemma AddTask_resInfo_no_size_marker:
  "e \<in> set (fst (snd (AddTask_resInfo be r nm d off resSize s))) \<Longrightarrow> \<not> size_marker e"
  by (auto simp: AddTask_resInfo_def size_marker_def
      split: option.splits dest: AddTask_pool_no_size_marker)

text \<open>
  What the check does, with \<open>offset + dumpSize\<close> read as the \<open>size_t\<close> sum the source
  computes. For a submission that passes the sampling gate: when the resource has no GMM
  resource info, \<open>AddTask\<close> calls the error reporter once, with the tag
  \<open>get_surface_size_failed\<close>, and returns with the state unchanged; when the sum exceeds the
  size of the resource, it calls the error reporter once, with the tag
  \<open>incorrect_size_offset\<close>, and returns with the state unchanged, so nothing is allocated and
  the queue is the same; when the sum is equal to the size of the resource, the submission
  passes the check: \<open>AddTask\<close> goes on with the query of the shape, and no error of the size
  check is reported.
\<close>

lemma AddTask_validates_size:
  assumes "m_2CacheTask s (elapsed be)"
  shows "(pGmmResInfo r = None \<longrightarrow>
            AddTask be r nm dumpSize off s =
              (Dropped, [ErrorMarker nm ''get_surface_size_failed''], s)) \<and>
         (\<forall>resSize. pGmmResInfo r = Some resSize \<and> resSize < off + dumpSize \<longrightarrow>
            AddTask be r nm dumpSize off s =
              (Dropped, [ErrorMarker nm ''incorrect_size_offset''], s)) \<and>
         (\<forall>resSize. pGmmResInfo r = Some resSize \<and> off + dumpSize = resSize \<longrightarrow>
            AddTask be r nm dumpSize off s = AddTask_resInfo be r nm dumpSize off resSize s \<and>
            (\<forall>e \<in> set (fst (snd (AddTask be r nm dumpSize off s))). \<not> size_marker e))"
  using assms
  by (auto simp: AddTask_def dest: AddTask_resInfo_no_size_marker)

lemma AddTask_validates_size_examples:
  "AddTask backend_ok \<lparr>handle = 7, pGmmResInfo = None\<rparr> ''frame'' 12 4
       (MediaDebugFastDumpImp None None) =
     (Dropped, [ErrorMarker ''frame'' ''get_surface_size_failed''],
      MediaDebugFastDumpImp None None) \<and>
   AddTask backend_ok (resource 7 16) ''frame'' 13 4 (MediaDebugFastDumpImp None None) =
     (Dropped, [ErrorMarker ''frame'' ''incorrect_size_offset''],
      MediaDebugFastDumpImp None None) \<and>
   fst (AddTask backend_ok (resource 7 16) ''frame'' 12 4 (MediaDebugFastDumpImp None None)) =
     Staged 0"
proof -
  have g: "m_2CacheTask (MediaDebugFastDumpImp None None) (elapsed backend_ok)"
    by (simp add: m_2CacheTask_def MediaDebugFastDumpImp_def Let_def)
  have a: "AddTask backend_ok \<lparr>handle = 7, pGmmResInfo = None\<rparr> ''frame'' 12 4
       (MediaDebugFastDumpImp None None) =
     (Dropped, [ErrorMarker ''frame'' ''get_surface_size_failed''],
      MediaDebugFastDumpImp None None)"
    using AddTask_validates_size
      [OF g, of "\<lparr>handle = 7, pGmmResInfo = None\<rparr>" "''frame''" 12 4]
    by simp
  have b: "AddTask backend_ok (resource 7 16) ''frame'' 13 4 (MediaDebugFastDumpImp None None) =
     (Dropped, [ErrorMarker ''frame'' ''incorrect_size_offset''],
      MediaDebugFastDumpImp None None)"
    using AddTask_validates_size [OF g, of "resource 7 16" "''frame''" 13 4]
    by (simp add: resource_def)
  have c: "AddTask backend_ok (resource 7 16) ''frame'' 12 4 (MediaDebugFastDumpImp None None) =
      AddTask_resInfo backend_ok (resource 7 16) ''frame'' 12 4 16
        (MediaDebugFastDumpImp None None)"
    using AddTask_validates_size [OF g, of "resource 7 16" "''frame''" 12 4]
    by (simp add: resource_def)
  have d: "fst (AddTask_resInfo backend_ok (resource 7 16) ''frame'' 12 4 16
             (MediaDebugFastDumpImp None None)) = Staged 0"
    by (simp add: AddTask_resInfo_def AddTask_pool_def AddTask_copy_def m_allocate_def
        bucket_def resPool_at_def keys_ordered_def ResInfoCmp_def emplace_back_def
        MediaDebugFastDumpImp_def backend_ok_def resource_def Let_def)
  from a b c d show ?thesis by simp
qed

text \<open>
  As long as \<open>offset + dumpSize\<close> stays in the range of \<open>size_t\<close>, the comparison of the
  source is the comparison of the numbers.
\<close>

lemma size_check_exact:
  fixes resSize off dumpSize :: size_t
  assumes "unat off + unat dumpSize < 2 ^ 64"
  shows "resSize < off + dumpSize \<longleftrightarrow> unat resSize < unat off + unat dumpSize"
proof -
  from assms have "unat off + unat dumpSize < 2 ^ LENGTH(64)" by simp
  then have "unat (off + dumpSize) = unat off + unat dumpSize"
    by (rule unat_add_lem [THEN iffD1])
  then show ?thesis by (simp add: word_less_nat_alt)
qed

text \<open>
  Claim C5. The claim fails where \<open>offset + dumpSize\<close> leaves the range of \<open>size_t\<close>. A
  pipeline with the default configuration receives a resource of 16 bytes with offset
  \<open>2 ^ 64 - 1\<close> and dump size 2: offset plus dump size exceeds the size of the resource, but the
  sum the source compares has wrapped to 1. \<open>AddTask\<close> reports no error, allocates a buffer and
  puts the request into the queue with that offset and that size, and \<open>DoDump\<close> hands the sink
  2 bytes that start \<open>2 ^ 64 - 1\<close> bytes behind the start of the 16 bytes of the buffer. The
  same happens with offset 8 and dump size \<open>2 ^ 64 - 4\<close>, where the sum wraps to 4.
\<close>

theorem AddTask_size_check_wraps:
  "unat (- 1 :: size_t) + unat (2 :: size_t) > unat (16 :: size_t) \<and>
   AddTask backend_16 (resource 7 16) ''frame'' 2 (- 1) (MediaDebugFastDumpImp None None) =
     (Staged 0, [Allocation MOS_MEMPOOL_SYSTEMMEMORY 16], staged_out_of_bounds) \<and>
   m_resQueue staged_out_of_bounds = [0] \<and>
   job_of staged_out_of_bounds 0 = (0, ''frame'', - 1, 2) \<and>
   DoDump backend_16 staged_out_of_bounds 0 =
     [Write2File ''frame'' (LockedData (resource 1 16) (- 1)) 2] \<and>
   unat (8 :: size_t) + unat (- 4 :: size_t) > unat (16 :: size_t) \<and>
   fst (AddTask backend_16 (resource 7 16) ''frame'' (- 4) 8 (MediaDebugFastDumpImp None None)) =
     Staged 0"
  by (simp add: staged_out_of_bounds_def backend_16_def job_of_def DoDump_def m_write_def
      AddTask_def AddTask_resInfo_def AddTask_pool_def AddTask_copy_def m_allocate_def
      m_2CacheTask_def bucket_def resPool_at_def keys_ordered_def ResInfoCmp_def
      emplace_back_def MediaDebugFastDumpImp_def backend_ok_def resource_def Let_def
      unsigned_minus_1_eq_mask mask_eq_exp_minus_1)

section \<open>The pool when no buffer is free and none can be allocated\<close>

lemma m_allocate_charge_fails:
  "fst (m_allocate_charge be ri sz s) = None \<Longrightarrow> snd (snd (m_allocate_charge be ri sz s)) = s"
  by (cases "pfnAllocateResource be ri") (simp_all add: m_allocate_charge_def)

lemma m_allocate_charge_resPool:
  "fst (m_allocate_charge be ri sz (s\<lparr>m_resPool := p\<rparr>)) = fst (m_allocate_charge be ri sz s)"
  by (cases "pfnAllocateResource be ri") (simp_all add: m_allocate_charge_def)

lemma m_allocate_fails:
  assumes "fst (m_allocate be ri sz s) = None"
  shows "snd (snd (m_allocate be ri sz s)) = s"
proof (cases "m_allocate_sel s")
  case TwoTiers
  with assms show ?thesis
    by (auto simp: m_allocate_def dest: m_allocate_charge_fails split: if_splits)
next
  case FirstTierOnly
  with assms show ?thesis
    by (cases "pfnAllocateResource be (ri\<lparr>dwMemType := policy (m_memMng1st s)\<rparr>)")
      (simp_all add: m_allocate_def split: if_splits)
qed

lemma m_allocate_resPool:
  "fst (m_allocate be ri sz (s\<lparr>m_resPool := p\<rparr>)) = fst (m_allocate be ri sz s)"
  by (cases "m_allocate_sel s")
    (simp_all add: m_allocate_def m_allocate_charge_resPool split: option.split)

text \<open>
  What \<open>m_resPool[resInfo]\<close> can do, whatever the map answers: it answers a node that was
  there and leaves the map alone, or it appends a node with an empty bucket and answers it.
\<close>

lemma resPool_at_cases:
  assumes "resPool_at be s k = (i, s1)"
  shows "(i < length (m_resPool s) \<and> s1 = s) \<or>
         (i = length (m_resPool s) \<and> s1 = s\<lparr>m_resPool := m_resPool s @ [(k, [])]\<rparr>)"
proof -
  define node where
    "node = (if keys_ordered (k # map fst (m_resPool s)) then
               (case find_equiv k (map fst (m_resPool s)) of
                  Some i \<Rightarrow> i | None \<Rightarrow> length (map fst (m_resPool s)))
             else unordered_lookup be (map fst (m_resPool s)) k)"
  have "resPool_at be s k =
          (if node < length (m_resPool s) then (node, s)
           else (length (m_resPool s), s\<lparr>m_resPool := m_resPool s @ [(k, [])]\<rparr>))"
    by (simp add: resPool_at_def Let_def node_def)
  with assms show ?thesis
    by (cases "node < length (m_resPool s)") simp_all
qed

text \<open>
  Where the comparator orders the keys, the answer does not depend on the implementation of
  the map: it is the node whose key has the four compared fields of \<open>resInfo\<close>, and a new node
  when no key has them.
\<close>

lemma equivalent_keys:
  "\<not> ResInfoCmp a b \<and> \<not> ResInfoCmp b a \<longleftrightarrow>
     Type a = Type b \<and> dwWidth a = dwWidth b \<and> dwHeight a = dwHeight b \<and> Format a = Format b"
  by (auto simp: ResInfoCmp_any_field)

lemma find_equiv_Some:
  "find_equiv k ks = Some i \<Longrightarrow>
     i < length ks \<and> \<not> ResInfoCmp (ks ! i) k \<and> \<not> ResInfoCmp k (ks ! i)"
proof (induction ks arbitrary: i)
  case Nil
  then show ?case by simp
next
  case (Cons k' ks)
  show ?case
  proof (cases "\<not> ResInfoCmp k' k \<and> \<not> ResInfoCmp k k'")
    case True
    with Cons.prems show ?thesis by simp
  next
    case False
    with Cons.prems obtain j where j: "find_equiv k ks = Some j" "i = Suc j"
      by auto
    from Cons.IH [OF j(1)] j(2) show ?thesis by simp
  qed
qed

lemma find_equiv_None:
  "find_equiv k ks = None \<longleftrightarrow> (\<forall>k' \<in> set ks. ResInfoCmp k' k \<or> ResInfoCmp k k')"
  by (induction ks) auto

lemma resPool_at_ordered:
  assumes "keys_ordered (k # map fst (m_resPool s))"
  shows "resPool_at be s k =
           (case find_equiv k (map fst (m_resPool s)) of
              Some i \<Rightarrow> (i, s)
            | None \<Rightarrow> (length (m_resPool s), s\<lparr>m_resPool := m_resPool s @ [(k, [])]\<rparr>))"
proof (cases "find_equiv k (map fst (m_resPool s))")
  case None
  with assms show ?thesis by (simp add: resPool_at_def)
next
  case (Some i)
  from find_equiv_Some [OF Some] have "i < length (m_resPool s)" by simp
  with assms Some show ?thesis by (simp add: resPool_at_def)
qed

lemma resPool_at_update:
  assumes "resPool_at be s k = (i, s1)"
  shows "\<exists>p. s1 = s\<lparr>m_resPool := p\<rparr>"
  using resPool_at_cases [OF assms] by (metis Imp.surjective Imp.update_convs(6))

lemma resPool_at_fields:
  assumes "resPool_at be s k = (i, s1)"
  shows "store s1 = store s"
    and "store_next s1 = store_next s"
    and "m_resQueue s1 = m_resQueue s"
    and "m_memMng1st s1 = m_memMng1st s"
    and "m_memMng2nd s1 = m_memMng2nd s"
    and "m_allowDataLoss s1 = m_allowDataLoss s"
    and "m_allocate_sel s1 = m_allocate_sel s"
    and "m_ready4Dump s1 = m_ready4Dump s"
    and "m_stopScheduler s1 = m_stopScheduler s"
proof -
  from resPool_at_update [OF assms] obtain p where "s1 = s\<lparr>m_resPool := p\<rparr>" ..
  then show "store s1 = store s"
    and "store_next s1 = store_next s"
    and "m_resQueue s1 = m_resQueue s"
    and "m_memMng1st s1 = m_memMng1st s"
    and "m_memMng2nd s1 = m_memMng2nd s"
    and "m_allowDataLoss s1 = m_allowDataLoss s"
    and "m_allocate_sel s1 = m_allocate_sel s"
    and "m_ready4Dump s1 = m_ready4Dump s"
    and "m_stopScheduler s1 = m_stopScheduler s"
    by simp_all
qed

lemma resPool_at_node:
  assumes "resPool_at be s k = (i, s1)"
  shows "i < length (m_resPool s1)"
  using resPool_at_cases [OF assms] by auto

lemma resPool_at_bucket:
  assumes "resPool_at be s k = (i, s1)"
  shows "bucket s1 = bucket s"
proof
  fix j
  from resPool_at_cases [OF assms] show "bucket s1 j = bucket s j"
    by (auto simp: bucket_def nth_append)
qed

lemma resPool_at_nonempty:
  assumes "resPool_at be s k = (i, s1)" and "bucket s1 i \<noteq> []"
  shows "s1 = s" and "i < length (m_resPool s)"
proof -
  from assms(2) have "bucket s i \<noteq> []"
    by (simp add: resPool_at_bucket [OF assms(1)])
  then have "i < length (m_resPool s)"
    by (simp add: bucket_def split: if_splits)
  with resPool_at_cases [OF assms(1)] show "s1 = s" and "i < length (m_resPool s)"
    by auto
qed

lemma resPool_at_m_allocate:
  assumes "resPool_at be s k = (i, s1)"
  shows "fst (m_allocate be' ri sz s1) = fst (m_allocate be' ri sz s)"
proof -
  from resPool_at_update [OF assms] obtain p where p: "s1 = s\<lparr>m_resPool := p\<rparr>" ..
  show ?thesis
    unfolding p by (rule m_allocate_resPool)
qed

lemma AddTask_pool_no_room:
  assumes lookup: "resPool_at be s k = (i, s1)"
    and nofree: "find_unoccupied (store s) (bucket s1 i) = None"
    and nomem: "fst (m_allocate be k resSize s) = None"
  shows "AddTask_pool be r nm dumpSize off resSize k s =
           (if \<not> m_allowDataLoss s \<and> bucket s1 i \<noteq> [] then (Blocked resSize i, [], s1)
            else (Dropped, [ErrorMarker nm ''discarded''], s1))"
proof -
  have f: "fst (m_allocate be k resSize s1) = None"
    using nomem by (simp add: resPool_at_m_allocate [OF lookup])
  then have e: "snd (snd (m_allocate be k resSize s1)) = s1"
    by (rule m_allocate_fails)
  obtain ri' where m: "m_allocate be k resSize s1 = (None, ri', s1)"
    using f e by (metis prod.collapse)
  show ?thesis
    using nofree m
    by (simp add: AddTask_pool_def lookup resPool_at_fields [OF lookup])
qed

lemma find_unoccupied_Some:
  "find_unoccupied st b = Some a \<Longrightarrow> a \<in> set b \<and> \<not> occupied (st a)"
  by (induction b) (auto split: if_splits)

lemma find_unoccupied_None:
  "find_unoccupied st b = None \<longleftrightarrow> (\<forall>a \<in> set b. occupied (st a))"
  by (induction b) auto

lemmas run_defs =
  AddTask_def AddTask_resInfo_def AddTask_pool_def AddTask_copy_def AddTask_wake_def
  m_allocate_def m_allocate_charge_def m_2CacheTask_def MediaDebugFastDumpImp_def
  small_pipeline_def one_staged_def key_ok_def resInfo_of_def bucket_def resPool_at_def
  keys_ordered_def ResInfoCmp_def emplace_back_def
  backend_ok_def resource_def adapter_info_def config_def Let_def

lemmas sys_defs =
  start_def after_AddTask_def job_of_def DoDump_def m_write_def m_writeError_def pending_def
  demo_start_def demo_run_def

lemma one_staged_facts:
  "m_2CacheTask (one_staged loss) (elapsed backend_ok)"
  "m_allowDataLoss (one_staged loss) = loss"
  "resPool_at backend_ok (one_staged loss) key_ok = (0, one_staged loss)"
  "bucket (one_staged loss) 0 = [0]"
  "occupied (store (one_staged loss) 0)"
  "m_resQueue (one_staged loss) = [0]"
  "usage (m_memMng1st (one_staged loss)) = 600"
  "cap (m_memMng1st (one_staged loss)) = 750"
  "m_allocate_sel (one_staged loss) = FirstTierOnly"
  by (simp_all add: run_defs)

lemma find_unoccupied_release:
  assumes "\<forall>x \<in> set b. occupied (st x)" and "a \<in> set b"
  shows "find_unoccupied (st(a := (st a)\<lparr>occupied := False\<rparr>)) b = Some a"
  using assms by (induction b) auto

lemma bucket_released [simp]:
  "bucket (s\<lparr>store := st, m_resQueue := q, m_ready4Dump := x\<rparr>) = bucket s"
  by (simp add: bucket_def fun_eq_iff)

lemma busy_state_facts:
  "run busy_run busy_start = Some busy_state"
  "m_2CacheTask (imp busy_state) (elapsed backend_ok)"
  "\<not> m_allowDataLoss (imp busy_state)"
  "resPool_at backend_ok (imp busy_state) key_ok = (0, imp busy_state)"
  "bucket (imp busy_state) 0 = [0]"
  "occupied (store (imp busy_state) 0)"
  "m_resQueue (imp busy_state) = [0]"
  "workers busy_state = [(0, 0, True)]"
  "usage (m_memMng1st (imp busy_state)) = 600"
  "cap (m_memMng1st (imp busy_state)) = 750"
  "m_allocate_sel (imp busy_state) = FirstTierOnly"
  by (simp_all add: busy_state_def busy_run_def busy_start_def run_defs sys_defs)

text \<open>
  Claim C1, as amended. A submission passes the gate, the size check and the shape query, and
  \<open>m_resPool[resInfo]\<close> answers the bucket \<open>resArray\<close>; no buffer of that bucket is free and
  \<open>m_allocate\<close> answers false. When data loss is not allowed and the bucket holds at least one
  buffer, \<open>AddTask\<close> reports nothing, changes nothing and waits on the condition variable; the
  bucket is one the map held before the call. Each time the producer is woken, in a state
  \<open>s'\<close>, it searches that bucket again: with no free buffer it goes on waiting; with a free
  buffer \<open>a\<close> it goes on with the copy into \<open>a\<close>, and when the copy succeeds the task is put
  into the queue with that buffer. It does not report \<open>discarded\<close>. When a dump task that has
  finished releases the front of the queue and that buffer belongs to the bucket, the producer
  woken next finds it and goes on with the copy into it. (With an empty bucket the submission
  is discarded: see the counterexample.)
\<close>

theorem AddTask_blocks:
  assumes gate: "m_2CacheTask s (elapsed be)"
    and size: "pGmmResInfo r = Some resSize" "\<not> resSize < off + dumpSize"
    and shape: "pfnGetResourceInfo be r = Some details"
    and lookup: "resPool_at be s (resInfo_of be r details) = (resArray, s1)"
    and nofree: "find_unoccupied (store s) (bucket s1 resArray) = None"
    and nomem: "fst (m_allocate be (resInfo_of be r details) resSize s) = None"
    and loss: "\<not> m_allowDataLoss s"
    and nonempty: "bucket s1 resArray \<noteq> []"
  shows "AddTask be r nm dumpSize off s = (Blocked resSize resArray, [], s) \<and>
         resArray < length (m_resPool s) \<and>
         (find_unoccupied (store s') (bucket s' resArray) = None \<longrightarrow>
            AddTask_wake be' r nm dumpSize off resSize resArray s' =
              (Blocked resSize resArray, [], s')) \<and>
         (\<forall>a. find_unoccupied (store s') (bucket s' resArray) = Some a \<longrightarrow>
            a \<in> set (bucket s' resArray) \<and> \<not> occupied (store s' a) \<and>
            AddTask_wake be' r nm dumpSize off resSize resArray s' =
              AddTask_copy be' r nm dumpSize off resSize a s' \<and>
            (SurfaceCopy be' r (res (store s' a)) \<longrightarrow>
               fst (AddTask_wake be' r nm dumpSize off resSize resArray s') = Staged a \<and>
               m_resQueue (snd (snd (AddTask_wake be' r nm dumpSize off resSize resArray s'))) =
                 m_resQueue s' @ [a]) \<and>
            ErrorMarker nm ''discarded'' \<notin>
              set (fst (snd (AddTask_wake be' r nm dumpSize off resSize resArray s')))) \<and>
         (\<forall>sys t sys'.
            imp sys = s \<and> step (Finish t) sys = Some sys' \<and>
            hd (m_resQueue s) \<in> set (bucket s resArray) \<longrightarrow>
            AddTask_wake be' r nm dumpSize off resSize resArray (imp sys') =
              AddTask_copy be' r nm dumpSize off resSize (hd (m_resQueue s)) (imp sys'))"
proof -
  let ?k = "resInfo_of be r details"
  note same = resPool_at_nonempty [OF lookup nonempty]
  have a: "AddTask be r nm dumpSize off s = AddTask_pool be r nm dumpSize off resSize ?k s"
    using gate size shape by (simp add: AddTask_def AddTask_resInfo_def resInfo_of_def)
  have b: "AddTask_pool be r nm dumpSize off resSize ?k s = (Blocked resSize resArray, [], s)"
    using AddTask_pool_no_room [OF lookup nofree nomem] loss nonempty
    by (simp add: same)
  have ab: "AddTask be r nm dumpSize off s = (Blocked resSize resArray, [], s)"
    using a b by simp
  have w1: "find_unoccupied (store s') (bucket s' resArray) = None \<longrightarrow>
            AddTask_wake be' r nm dumpSize off resSize resArray s' =
              (Blocked resSize resArray, [], s')"
    by (simp add: AddTask_wake_def)
  have w2: "\<forall>a. find_unoccupied (store s') (bucket s' resArray) = Some a \<longrightarrow>
            a \<in> set (bucket s' resArray) \<and> \<not> occupied (store s' a) \<and>
            AddTask_wake be' r nm dumpSize off resSize resArray s' =
              AddTask_copy be' r nm dumpSize off resSize a s' \<and>
            (SurfaceCopy be' r (res (store s' a)) \<longrightarrow>
               fst (AddTask_wake be' r nm dumpSize off resSize resArray s') = Staged a \<and>
               m_resQueue (snd (snd (AddTask_wake be' r nm dumpSize off resSize resArray s'))) =
                 m_resQueue s' @ [a]) \<and>
            ErrorMarker nm ''discarded'' \<notin>
              set (fst (snd (AddTask_wake be' r nm dumpSize off resSize resArray s')))"
    by (auto simp: AddTask_wake_def AddTask_copy_def dest: find_unoccupied_Some)
  have busy: "\<forall>x \<in> set (bucket s resArray). occupied (store s x)"
    using nofree by (simp add: same find_unoccupied_None)
  have w3: "\<forall>sys t sys'.
            imp sys = s \<and> step (Finish t) sys = Some sys' \<and>
            hd (m_resQueue s) \<in> set (bucket s resArray) \<longrightarrow>
            AddTask_wake be' r nm dumpSize off resSize resArray (imp sys') =
              AddTask_copy be' r nm dumpSize off resSize (hd (m_resQueue s)) (imp sys')"
  proof (intro allI impI, elim conjE)
    fix sys t sys'
    assume i: "imp sys = s" and st: "step (Finish t) sys = Some sys'"
      and h: "hd (m_resQueue s) \<in> set (bucket s resArray)"
    from st i have i': "imp sys' =
        s\<lparr>store := (store s)(hd (m_resQueue s) := (store s (hd (m_resQueue s)))\<lparr>occupied := False\<rparr>),
          m_resQueue := tl (m_resQueue s), m_ready4Dump := True\<rparr>"
      by (auto split: option.splits bool.splits if_splits)
    have "find_unoccupied (store (imp sys')) (bucket (imp sys') resArray) = Some (hd (m_resQueue s))"
      unfolding i' using find_unoccupied_release [OF busy h] by simp
    then show "AddTask_wake be' r nm dumpSize off resSize resArray (imp sys') =
              AddTask_copy be' r nm dumpSize off resSize (hd (m_resQueue s)) (imp sys')"
      by (simp add: AddTask_wake_def)
  qed
  show ?thesis
    by (intro conjI) (rule ab, rule same(2), rule w1, rule w2, rule w3)
qed

theorem AddTask_blocks_witness:
  "AddTask backend_ok (resource 8 600) ''second'' 0 0 (imp busy_state) =
     (Blocked 600 0, [], imp busy_state) \<and>
   AddTask_wake backend_ok (resource 8 600) ''second'' 0 0 600 0 (imp busy_state) =
     (Blocked 600 0, [], imp busy_state) \<and>
   step (Finish 0) busy_state \<noteq> None \<and>
   fst (AddTask_wake backend_ok (resource 8 600) ''second'' 0 0 600 0
          (imp (the (step (Finish 0) busy_state)))) = Staged 0"
proof -
  let ?s = "imp busy_state"
  have h1: "pGmmResInfo (resource 8 600) = Some 600" by (simp add: resource_def)
  have h2: "\<not> (600 :: size_t) < 0 + 0" by simp
  have h3: "pfnGetResourceInfo backend_ok (resource 8 600) =
              Some \<lparr>dwWidth_details = 64, dwHeight_details = 1, Format_details = 0\<rparr>"
    by (simp add: backend_ok_def)
  have h4: "resInfo_of backend_ok (resource 8 600)
              \<lparr>dwWidth_details = 64, dwHeight_details = 1, Format_details = 0\<rparr> = key_ok"
    by (simp add: key_ok_def resInfo_of_def backend_ok_def)
  have h5: "find_unoccupied (store ?s) (bucket ?s 0) = None"
    by (simp add: busy_state_facts)
  have h6: "fst (m_allocate backend_ok key_ok 600 ?s) = None"
    by (simp add: m_allocate_def busy_state_facts)
  have h8: "bucket ?s 0 \<noteq> []" by (simp add: busy_state_facts)
  have e: "step (Finish 0) busy_state \<noteq> None"
    by (simp add: busy_state_facts)
  then obtain sys' where sys': "step (Finish 0) busy_state = Some sys'" by blast
  note t = AddTask_blocks [OF busy_state_facts(2) h1 h2 h3 busy_state_facts(4) [folded h4] h5
      h6 [folded h4] busy_state_facts(3) h8, of "''second''" ?s backend_ok]
  from t have a: "AddTask backend_ok (resource 8 600) ''second'' 0 0 ?s = (Blocked 600 0, [], ?s)"
    by (rule conjunct1)
  from t h5 have b: "AddTask_wake backend_ok (resource 8 600) ''second'' 0 0 600 0 ?s =
      (Blocked 600 0, [], ?s)"
    by blast
  have hq: "hd (m_resQueue ?s) \<in> set (bucket ?s 0)" by (simp add: busy_state_facts)
  from t sys' hq have c: "AddTask_wake backend_ok (resource 8 600) ''second'' 0 0 600 0 (imp sys') =
      AddTask_copy backend_ok (resource 8 600) ''second'' 0 0 600 (hd (m_resQueue ?s)) (imp sys')"
    by blast
  have d: "fst (AddTask_copy backend_ok (resource 8 600) ''second'' 0 0 600 (hd (m_resQueue ?s))
             (imp sys')) = Staged 0"
    by (simp add: AddTask_copy_def backend_ok_def busy_state_facts)
  show ?thesis
    unfolding sys' using a b c d by simp
qed

text \<open>
  Claim C1 as stated fails for a bucket that holds no buffer: in a fresh pipeline that does not
  allow data loss, whose first tier holds 750 bytes, a submission of a 4096-byte resource gets
  the empty bucket of a new node, cannot allocate, and is dropped with the marker
  \<open>discarded\<close>; the queue stays empty.
\<close>

theorem AddTask_discards_empty_bucket:
  "\<not> m_allowDataLoss (small_pipeline False) \<and>
   m_resPool (small_pipeline False) = [] \<and>
   fst (m_allocate backend_ok key_ok 4096 (small_pipeline False)) = None \<and>
   fst (AddTask backend_ok (resource 7 4096) ''frame'' 0 0 (small_pipeline False)) = Dropped \<and>
   fst (snd (AddTask backend_ok (resource 7 4096) ''frame'' 0 0 (small_pipeline False))) =
     [ErrorMarker ''frame'' ''discarded''] \<and>
   m_resQueue (snd (snd (AddTask backend_ok (resource 7 4096) ''frame'' 0 0 (small_pipeline False)))) = [] \<and>
   m_resPool (snd (snd (AddTask backend_ok (resource 7 4096) ''frame'' 0 0 (small_pipeline False)))) =
     [(key_ok, [])]"
  by (simp add: run_defs)

text \<open>
  The bucket the map answers need not be the bucket that holds the buffers of the shape. The
  two shapes of the section on the comparator are not ordered by it. In a pipeline
  that does not allow data loss and whose first tier holds 1500 bytes, one 600-byte resource of
  each shape has been staged, so that the second shape has a bucket with one occupied buffer. A
  third submission, of the second shape, is run with a map that misses the node of that shape
  and inserts a new one (which is what the red-black tree of libstdc++ does for these keys: its
  search turns right at the first key and its insertion turns left). The submission finds an
  empty bucket, cannot allocate and is dropped with \<open>discarded\<close>; the map has three nodes.
\<close>

lemma AddTask_misses_bucket:
  "m_resPool two_shapes_staged = [(shape 0 1 0 0, [0]), (shape 1 0 0 0, [1])] \<and>
   \<not> keys_ordered [shape 1 0 0 0, shape 0 1 0 0, shape 1 0 0 0] \<and>
   occupied (store two_shapes_staged 1) \<and>
   \<not> m_allowDataLoss two_shapes_staged \<and>
   AddTask backend_two_shapes (resource 3 600) ''third'' 0 0 two_shapes_staged =
     (Dropped, [ErrorMarker ''third'' ''discarded''],
      two_shapes_staged\<lparr>m_resPool :=
        [(shape 0 1 0 0, [0]), (shape 1 0 0 0, [1]), (shape 1 0 0 0, [])]\<rparr>)"
  by (simp add: two_shapes_staged_def backend_two_shapes_def shape_def run_defs)

text \<open>
  Claim C9. A submission passes the gate, the size check and the shape query, and
  \<open>m_resPool[resInfo]\<close> answers the bucket \<open>resArray\<close>; no buffer of that bucket is free,
  \<open>m_allocate\<close> answers false, and data loss is allowed. Then \<open>AddTask\<close> calls the error
  reporter exactly once, with the tag \<open>discarded\<close>, and returns: the queue, the buffers, both
  tiers and the content of every bucket are what they were (the pool only gains the empty
  bucket of the node that \<open>m_resPool[resInfo]\<close> may have inserted).
\<close>

theorem AddTask_discards:
  assumes gate: "m_2CacheTask s (elapsed be)"
    and size: "pGmmResInfo r = Some resSize" "\<not> resSize < off + dumpSize"
    and shape: "pfnGetResourceInfo be r = Some details"
    and lookup: "resPool_at be s (resInfo_of be r details) = (resArray, s1)"
    and nofree: "find_unoccupied (store s) (bucket s1 resArray) = None"
    and nomem: "fst (m_allocate be (resInfo_of be r details) resSize s) = None"
    and loss: "m_allowDataLoss s"
  shows "AddTask be r nm dumpSize off s = (Dropped, [ErrorMarker nm ''discarded''], s1) \<and>
         m_resQueue (snd (snd (AddTask be r nm dumpSize off s))) = m_resQueue s \<and>
         store (snd (snd (AddTask be r nm dumpSize off s))) = store s \<and>
         m_memMng1st (snd (snd (AddTask be r nm dumpSize off s))) = m_memMng1st s \<and>
         m_memMng2nd (snd (snd (AddTask be r nm dumpSize off s))) = m_memMng2nd s \<and>
         bucket (snd (snd (AddTask be r nm dumpSize off s))) = bucket s"
proof -
  let ?k = "resInfo_of be r details"
  have a: "AddTask be r nm dumpSize off s = AddTask_pool be r nm dumpSize off resSize ?k s"
    using gate size shape by (simp add: AddTask_def AddTask_resInfo_def resInfo_of_def)
  have b: "AddTask_pool be r nm dumpSize off resSize ?k s =
           (Dropped, [ErrorMarker nm ''discarded''], s1)"
    using AddTask_pool_no_room [OF lookup nofree nomem] loss by simp
  show ?thesis
    by (simp add: a b resPool_at_fields [OF lookup] resPool_at_bucket [OF lookup])
qed

theorem AddTask_discards_witness:
  "AddTask backend_ok (resource 8 600) ''second'' 0 0 (one_staged True) =
     (Dropped, [ErrorMarker ''second'' ''discarded''], one_staged True) \<and>
   m_resQueue (snd (snd (AddTask backend_ok (resource 8 600) ''second'' 0 0 (one_staged True)))) = [0] \<and>
   usage (m_memMng1st (snd (snd (AddTask backend_ok (resource 8 600) ''second'' 0 0 (one_staged True))))) = 600"
proof -
  let ?s = "one_staged True"
  have h1: "pGmmResInfo (resource 8 600) = Some 600" by (simp add: resource_def)
  have h2: "\<not> (600 :: size_t) < 0 + 0" by simp
  have h3: "pfnGetResourceInfo backend_ok (resource 8 600) =
              Some \<lparr>dwWidth_details = 64, dwHeight_details = 1, Format_details = 0\<rparr>"
    by (simp add: backend_ok_def)
  have h4: "resInfo_of backend_ok (resource 8 600)
              \<lparr>dwWidth_details = 64, dwHeight_details = 1, Format_details = 0\<rparr> = key_ok"
    by (simp add: key_ok_def resInfo_of_def backend_ok_def)
  have h5: "find_unoccupied (store ?s) (bucket ?s 0) = None"
    by (simp add: one_staged_facts)
  have h6: "fst (m_allocate backend_ok key_ok 600 ?s) = None"
    by (simp add: m_allocate_def one_staged_facts)
  have h7: "m_allowDataLoss ?s" by (simp add: one_staged_facts)
  show ?thesis
    using AddTask_discards [OF one_staged_facts(1) h1 h2 h3 one_staged_facts(3) [folded h4] h5
      h6 [folded h4] h7, of "''second''"]
    by (simp add: one_staged_facts)
qed

section \<open>The error reporter\<close>

text \<open>
  Claim C10, as amended. With \<open>informOnError\<close> set, in every state that holds the closures the
  constructor installed for configuration \<open>c\<close>, the error reporter called with label \<open>L\<close> and tag
  \<open>E\<close> writes through the configured sinks (the file when \<open>write2File\<close> is set, the trace when
  \<open>write2Trace\<close> is set) one marker named \<open>L\<close>, a dot, \<open>E\<close>, whose payload is the single byte
  \<open>dummy\<close>: its size is 1, not 0. Without a configuration the marker goes to the file.
\<close>

theorem error_marker_one_byte:
  assumes "informOnError c"
    and "m_write_sel s = m_write_sel (MediaDebugFastDumpImp adapter (Some c))"
    and "m_writeError_sel s = m_writeError_sel (MediaDebugFastDumpImp adapter (Some c))"
  shows "m_writeError s L E =
           (if write2File c then [Write2File (L @ ''.'' @ E) Dummy 1] else []) @
           (if write2Trace c then [MOS_TraceDataDump (L @ ''.'' @ E) Dummy 1] else []) \<and>
         m_writeError (MediaDebugFastDumpImp adapter None) L E =
           [Write2File (L @ ''.'' @ E) Dummy 1]"
  using assms by (simp add: m_writeError_def m_write_def MediaDebugFastDumpImp_def Let_def)

theorem error_marker_one_byte_witness:
  "m_writeError (MediaDebugFastDumpImp None (Some (config True True True True 75 0 0 0)))
       ''frame'' ''discarded'' =
     [Write2File ''frame.discarded'' Dummy 1, MOS_TraceDataDump ''frame.discarded'' Dummy 1]"
  using error_marker_one_byte [of "config True True True True 75 0 0 0"
      "MediaDebugFastDumpImp None (Some (config True True True True 75 0 0 0))" None
      "''frame''" "''discarded''"]
  by (simp add: config_def)

text \<open>
  Claim C10 as stated fails on the size: with the default configuration the marker of the
  request \<open>frame\<close> and the tag \<open>discarded\<close> is written to the file \<open>frame.discarded\<close> with a
  payload of 1 byte, not 0.
\<close>

theorem error_marker_not_empty:
  "m_writeError (MediaDebugFastDumpImp None None) ''frame'' ''discarded'' =
     [Write2File ''frame.discarded'' Dummy 1] \<and>
   map sink_size (m_writeError (MediaDebugFastDumpImp None None) ''frame'' ''discarded'') \<noteq> [0]"
  by (simp add: m_writeError_def m_write_def MediaDebugFastDumpImp_def sink_size_def)

section \<open>What a producer changes\<close>

lemma m_allocate_charge_same:
  "same_but_usage s (snd (snd (m_allocate_charge be ri sz s)))"
  by (simp add: m_allocate_charge_def same_but_usage_def split: option.split)

lemma m_allocate_same:
  "same_but_usage s (snd (snd (m_allocate be ri sz s)))"
proof (cases "m_allocate_sel s")
  case TwoTiers
  have "same_but_usage s s" by (simp add: same_but_usage_def)
  with TwoTiers show ?thesis
    by (simp add: m_allocate_def m_allocate_charge_same)
next
  case FirstTierOnly
  then show ?thesis
    by (simp add: m_allocate_def same_but_usage_def split: option.split)
qed

lemma m_allocate_tiers:
  assumes "policy (m_memMng1st s) \<noteq> policy (m_memMng2nd s)"
  shows "m_allocate be ri sz s =
     (if \<not> usage (m_memMng1st s) + sz > cap (m_memMng1st s) then
        (case pfnAllocateResource be (ri\<lparr>dwMemType := policy (m_memMng1st s)\<rparr>) of
           Some r \<Rightarrow>
             (Some r, ri\<lparr>dwMemType := policy (m_memMng1st s)\<rparr>,
              s\<lparr>m_memMng1st := (m_memMng1st s)\<lparr>usage := usage (m_memMng1st s) + sz\<rparr>\<rparr>)
         | None \<Rightarrow> (None, ri\<lparr>dwMemType := policy (m_memMng1st s)\<rparr>, s))
      else if m_allocate_sel s = TwoTiers \<and> \<not> usage (m_memMng2nd s) + sz > cap (m_memMng2nd s) then
        (case pfnAllocateResource be (ri\<lparr>dwMemType := policy (m_memMng2nd s)\<rparr>) of
           Some r \<Rightarrow>
             (Some r, ri\<lparr>dwMemType := policy (m_memMng2nd s)\<rparr>,
              s\<lparr>m_memMng2nd := (m_memMng2nd s)\<lparr>usage := usage (m_memMng2nd s) + sz\<rparr>\<rparr>)
         | None \<Rightarrow> (None, ri\<lparr>dwMemType := policy (m_memMng2nd s)\<rparr>, s))
      else (None, ri, s))"
proof (cases "m_allocate_sel s")
  case TwoTiers
  with assms show ?thesis
    by (simp add: m_allocate_def m_allocate_charge_def split: option.split)
next
  case FirstTierOnly
  then show ?thesis
    by (simp add: m_allocate_def split: option.split)
qed

lemma m_allocate_Some:
  assumes d: "policy (m_memMng1st s) \<noteq> policy (m_memMng2nd s)"
    and m: "m_allocate be ri sz s = (Some r, ri', s')"
  shows "usage (m_memMng1st s') =
           usage (m_memMng1st s) + charged (policy (m_memMng1st s)) [Allocation (dwMemType ri') sz]"
    and "usage (m_memMng2nd s') =
           usage (m_memMng2nd s) + charged (policy (m_memMng2nd s)) [Allocation (dwMemType ri') sz]"
    and "usage (m_memMng1st s) \<le> cap (m_memMng1st s) \<Longrightarrow> usage (m_memMng2nd s) \<le> cap (m_memMng2nd s) \<Longrightarrow>
           usage (m_memMng1st s') \<le> cap (m_memMng1st s) \<and> usage (m_memMng2nd s') \<le> cap (m_memMng2nd s)"
  using m d unfolding m_allocate_tiers [OF d]
  by (auto split: if_splits option.splits simp: not_less)

lemma charged_append: "charged p (xs @ ys) = charged p xs + charged p ys"
  by (induction p xs rule: charged.induct) (simp_all add: add.assoc)

lemma producer_frame_after:
  assumes rest: "producer_frame s1 (st, evs, s')"
    and flags: "m_ready4Dump s1 = m_ready4Dump s" "m_stopScheduler s1 = m_stopScheduler s"
      "m_resQueue s1 = m_resQueue s"
      "policy (m_memMng1st s1) = policy (m_memMng1st s)" "cap (m_memMng1st s1) = cap (m_memMng1st s)"
      "policy (m_memMng2nd s1) = policy (m_memMng2nd s)" "cap (m_memMng2nd s1) = cap (m_memMng2nd s)"
    and st: "store_inv s \<Longrightarrow> store_inv s1 \<and> (\<forall>b \<in> set (m_resQueue s). store s1 b = store s b)"
    and tiers: "policy (m_memMng1st s) \<noteq> policy (m_memMng2nd s) \<Longrightarrow>
       usage (m_memMng1st s1) = usage (m_memMng1st s) + charged (policy (m_memMng1st s)) evs0 \<and>
       usage (m_memMng2nd s1) = usage (m_memMng2nd s) + charged (policy (m_memMng2nd s)) evs0 \<and>
       (usage (m_memMng1st s) \<le> cap (m_memMng1st s) \<and> usage (m_memMng2nd s) \<le> cap (m_memMng2nd s) \<longrightarrow>
          usage (m_memMng1st s1) \<le> cap (m_memMng1st s1) \<and> usage (m_memMng2nd s1) \<le> cap (m_memMng2nd s1))"
  shows "producer_frame s (st, evs0 @ evs, s')"
  using rest flags st tiers
  by (auto simp: producer_frame_def charged_append add.assoc)

lemma producer_frame_return:
  assumes "\<And>a. st \<noteq> Staged a" "\<And>p n. Allocation p n \<notin> set evs"
  shows "producer_frame s (st, evs, s)"
proof -
  have "charged p evs = 0" for p
    using assms(2) by (induction p evs rule: charged.induct) auto
  with assms(1) show ?thesis
    by (cases st) (auto simp: producer_frame_def)
qed

lemma store_invI:
  assumes "distinct (m_resQueue s)"
    and "\<And>a. a \<in> set (m_resQueue s) \<Longrightarrow> a < store_next s \<and> occupied (store s a)"
    and "\<And>a. a < store_next s \<Longrightarrow> occupied (store s a) \<Longrightarrow> a \<in> set (m_resQueue s)"
    and "\<And>n a. n \<in> set (m_resPool s) \<Longrightarrow> a \<in> set (snd n) \<Longrightarrow> a < store_next s"
  shows "store_inv s"
  unfolding store_inv_def
proof (intro conjI allI ballI impI)
  show "distinct (m_resQueue s)" by (rule assms(1))
next
  fix n a assume "n \<in> set (m_resPool s)" "a \<in> set (snd n)"
  then show "a < store_next s" by (rule assms(4))
next
  fix a assume "a \<in> set (m_resQueue s)"
  then show "a < store_next s" using assms(2) by simp
next
  fix a assume "a \<in> set (m_resQueue s)"
  then show "occupied (store s a)" using assms(2) by simp
next
  fix a assume "a < store_next s" "occupied (store s a)"
  then show "a \<in> set (m_resQueue s)" by (rule assms(3))
qed

lemma store_inv_distinct: "store_inv s \<Longrightarrow> distinct (m_resQueue s)"
  unfolding store_inv_def by (elim conjE)

lemma store_inv_queued:
  "store_inv s \<Longrightarrow> a \<in> set (m_resQueue s) \<Longrightarrow> a < store_next s \<and> occupied (store s a)"
  unfolding store_inv_def by (elim conjE) (erule (1) bspec)

lemma store_inv_occupied:
  "store_inv s \<Longrightarrow> a < store_next s \<Longrightarrow> occupied (store s a) \<Longrightarrow> a \<in> set (m_resQueue s)"
  unfolding store_inv_def by (elim conjE) blast

lemma store_inv_pool:
  assumes "store_inv s" "n \<in> set (m_resPool s)" "a \<in> set (snd n)"
  shows "a < store_next s"
proof -
  from assms(1) have "\<forall>n \<in> set (m_resPool s). \<forall>a \<in> set (snd n). a < store_next s"
    unfolding store_inv_def by (elim conjE)
  then have "\<forall>a \<in> set (snd n). a < store_next s"
    using assms(2) by (rule bspec)
  then show ?thesis using assms(3) by (rule bspec)
qed

lemma AddTask_copy_frame:
  assumes "store_inv s \<Longrightarrow> a < store_next s \<and> \<not> occupied (store s a)"
  shows "producer_frame s (AddTask_copy be r nm d off rs a s)"
proof (cases "SurfaceCopy be r (res (store s a))")
  case False
  then show ?thesis
    by (simp add: AddTask_copy_def producer_frame_return)
next
  case True
  define s' where "s' = s\<lparr>store := (store s)
              (a := (store s a)
                 \<lparr>occupied := True,
                  size_res := (if d = 0 then rs - off else d),
                  offset := off,
                  name := nm\<rparr>),
           m_resQueue := m_resQueue s @ [a]\<rparr>"
  have res: "AddTask_copy be r nm d off rs a s = (Staged a, [], s')"
    using True by (simp add: AddTask_copy_def s'_def)
  have q: "m_resQueue s' = m_resQueue s @ [a]" by (simp add: s'_def)
  have n: "store_next s' = store_next s" by (simp add: s'_def)
  have p: "m_resPool s' = m_resPool s" by (simp add: s'_def)
  have o: "occupied (store s' a)" by (simp add: s'_def)
  have same: "b \<noteq> a \<Longrightarrow> store s' b = store s b" for b by (simp add: s'_def)
  have frame: "m_ready4Dump s' = m_ready4Dump s" "m_stopScheduler s' = m_stopScheduler s"
    "m_memMng1st s' = m_memMng1st s" "m_memMng2nd s' = m_memMng2nd s"
    by (simp_all add: s'_def)
  have inv: "store_inv s' \<and> (\<forall>b \<in> set (m_resQueue s). store s' b = store s b)" if i: "store_inv s"
  proof -
    from assms i have a1: "a < store_next s" and a2: "\<not> occupied (store s a)" by simp_all
    note d = store_inv_distinct [OF i] and qo = store_inv_queued [OF i]
      and oq = store_inv_occupied [OF i] and pl = store_inv_pool [OF i]
    have na: "a \<notin> set (m_resQueue s)" using qo a2 by blast
    have c1: "distinct (m_resQueue s')" using d na by (simp add: q)
    have c2: "b < store_next s' \<and> occupied (store s' b)" if "b \<in> set (m_resQueue s')" for b
    proof (cases "b = a")
      case True
      then show ?thesis using a1 o by (simp add: n)
    next
      case False
      with that have "b \<in> set (m_resQueue s)" by (simp add: q)
      with False show ?thesis using qo by (simp add: n same)
    qed
    have c3: "b \<in> set (m_resQueue s')" if "b < store_next s'" "occupied (store s' b)" for b
    proof (cases "b = a")
      case True
      then show ?thesis by (simp add: q)
    next
      case False
      with that have "b \<in> set (m_resQueue s)" using oq by (simp add: n same)
      then show ?thesis by (simp add: q)
    qed
    have c4: "b < store_next s'" if "k \<in> set (m_resPool s')" "b \<in> set (snd k)" for k b
      using that pl by (simp add: n p)
    have "store_inv s'"
      using c1 c2 c3 c4 by (rule store_invI)
    moreover have "\<forall>b \<in> set (m_resQueue s). store s' b = store s b"
    proof
      fix b assume "b \<in> set (m_resQueue s)"
      with na have "b \<noteq> a" by blast
      then show "store s' b = store s b" by (rule same)
    qed
    ultimately show ?thesis ..
  qed
  show ?thesis
    unfolding res producer_frame_def prod.case
    using inv by (simp add: q frame)
qed


lemma bucket_bound:
  assumes "store_inv s" "a \<in> set (bucket s j)"
  shows "a < store_next s"
proof (cases "j < length (m_resPool s)")
  case False
  with assms(2) show ?thesis by (simp add: bucket_def)
next
  case True
  then have n: "m_resPool s ! j \<in> set (m_resPool s)" by (rule nth_mem)
  from True assms(2) have "a \<in> set (snd (m_resPool s ! j))" by (simp add: bucket_def)
  with assms(1) n show ?thesis by (rule store_inv_pool)
qed

lemma store_inv_resPool_at:
  assumes i: "store_inv s" and l: "resPool_at be s k = (j, s1)"
  shows "store_inv s1"
proof (rule store_invI)
  note f = resPool_at_fields [OF l]
  show "distinct (m_resQueue s1)"
    using store_inv_distinct [OF i] by (simp add: f)
  show "a < store_next s1 \<and> occupied (store s1 a)" if "a \<in> set (m_resQueue s1)" for a
    using that store_inv_queued [OF i, of a] by (simp add: f)
  show "a \<in> set (m_resQueue s1)" if "a < store_next s1" "occupied (store s1 a)" for a
    using that store_inv_occupied [OF i, of a] by (simp add: f)
  show "a < store_next s1" if n: "n \<in> set (m_resPool s1)" and a: "a \<in> set (snd n)" for n a
  proof -
    from resPool_at_cases [OF l] n a have "n \<in> set (m_resPool s)"
      by auto
    from store_inv_pool [OF i this a] show ?thesis by (simp add: f)
  qed
qed

lemma emplace_back_simps [simp]:
  "m_resQueue (emplace_back s k tmp) = m_resQueue s"
  "store_next (emplace_back s k tmp) = Suc (store_next s)"
  "m_memMng1st (emplace_back s k tmp) = m_memMng1st s"
  "m_memMng2nd (emplace_back s k tmp) = m_memMng2nd s"
  "m_ready4Dump (emplace_back s k tmp) = m_ready4Dump s"
  "m_stopScheduler (emplace_back s k tmp) = m_stopScheduler s"
  "\<not> occupied (store (emplace_back s k tmp) (store_next s))"
  "b \<noteq> store_next s \<Longrightarrow> store (emplace_back s k tmp) b = store s b"
  by (simp_all add: emplace_back_def)

lemma emplace_back_pool:
  assumes "n \<in> set (m_resPool (emplace_back s j tmp))" "a \<in> set (snd n)"
  shows "a = store_next s \<or> a \<in> set (bucket s j) \<or> (\<exists>n' \<in> set (m_resPool s). a \<in> set (snd n'))"
proof -
  from assms(1)
  have "n \<in> insert (fst (m_resPool s ! j), bucket s j @ [store_next s]) (set (m_resPool s))"
    using set_update_subset_insert [of "m_resPool s" j]
    by (auto simp: emplace_back_def)
  with assms(2) show ?thesis by auto
qed

lemma store_inv_emplace_back:
  assumes i: "store_inv s"
  shows "store_inv (emplace_back s k tmp)"
proof -
  let ?s' = "emplace_back s k tmp"
  note d = store_inv_distinct [OF i] and qo = store_inv_queued [OF i]
    and oq = store_inv_occupied [OF i] and pl = store_inv_pool [OF i]
  have c1: "distinct (m_resQueue ?s')" using d by simp
  have c2: "b < store_next ?s' \<and> occupied (store ?s' b)" if "b \<in> set (m_resQueue ?s')" for b
  proof -
    from that have "b < store_next s \<and> occupied (store s b)" using qo by simp
    then show ?thesis by simp
  qed
  have c3: "b \<in> set (m_resQueue ?s')" if "b < store_next ?s'" "occupied (store ?s' b)" for b
  proof (cases "b = store_next s")
    case True
    with that(2) show ?thesis by simp
  next
    case False
    with that have "b < store_next s" "occupied (store s b)" by simp_all
    then show ?thesis using oq by simp
  qed
  have c4: "b < store_next ?s'" if "n \<in> set (m_resPool ?s')" "b \<in> set (snd n)" for n b
  proof -
    from emplace_back_pool [OF that]
    have "b = store_next s \<or> b < store_next s"
      using bucket_bound [OF i] pl by blast
    then show ?thesis by auto
  qed
  show ?thesis
    using c1 c2 c3 c4 by (rule store_invI)
qed

lemma emplace_back_queued:
  assumes "store_inv s" "b \<in> set (m_resQueue s)"
  shows "store (emplace_back s k tmp) b = store s b"
proof -
  from store_inv_queued [OF assms] have "b < store_next s" by simp
  then show ?thesis by simp
qed

lemma same_but_usage_store_inv:
  "same_but_usage s s' \<Longrightarrow> store_inv s' = store_inv s"
  by (simp add: same_but_usage_def store_inv_def)

lemma producer_frame_resPool_at:
  assumes l: "resPool_at be s k = (j, s1)" and f: "producer_frame s1 (st, evs, s')"
  shows "producer_frame s (st, evs, s')"
proof -
  have "producer_frame s (st, [] @ evs, s')"
  proof (rule producer_frame_after [OF f])
    show "store_inv s1 \<and> (\<forall>b \<in> set (m_resQueue s). store s1 b = store s b)"
      if "store_inv s"
      using store_inv_resPool_at [OF that l] by (simp add: resPool_at_fields [OF l])
  qed (simp_all add: resPool_at_fields [OF l])
  then show ?thesis by simp
qed

lemma AddTask_pool_frame:
  "producer_frame s (AddTask_pool be r nm d off rs k s)"
proof -
  obtain j s1 where l: "resPool_at be s k = (j, s1)"
    by (cases "resPool_at be s k") auto
  note fs = resPool_at_fields [OF l]
  show ?thesis
  proof (cases "find_unoccupied (store s1) (bucket s1 j)")
    case (Some a)
    then have a: "a \<in> set (bucket s1 j)" "\<not> occupied (store s1 a)"
      by (auto dest: find_unoccupied_Some)
    have "producer_frame s1 (AddTask_copy be r nm d off rs a s1)"
      using a bucket_bound [of s1 a j] by (intro AddTask_copy_frame) simp
    moreover obtain st evs s' where c: "AddTask_copy be r nm d off rs a s1 = (st, evs, s')"
      by (cases "AddTask_copy be r nm d off rs a s1") auto
    ultimately have "producer_frame s1 (st, evs, s')" by simp
    with l have "producer_frame s (st, evs, s')"
      by (rule producer_frame_resPool_at)
    moreover have "AddTask_pool be r nm d off rs k s = (st, evs, s')"
      using Some c by (simp add: AddTask_pool_def l)
    ultimately show ?thesis by simp
  next
    case None
    obtain ro ri' s2 where m: "m_allocate be k rs s1 = (ro, ri', s2)"
      by (cases "m_allocate be k rs s1") auto
    have same: "same_but_usage s1 s2"
      using m_allocate_same [of s1 be k rs] m by simp
    show ?thesis
    proof (cases ro)
      case None': None
      have "snd (snd (m_allocate be k rs s1)) = s1"
        by (rule m_allocate_fails) (simp add: m None')
      then have s2: "s2 = s1" by (simp add: m)
      define st where "st = (if \<not> m_allowDataLoss s1 \<and> bucket s1 j \<noteq> [] then Blocked rs j else Dropped)"
      define evs where "evs = (if \<not> m_allowDataLoss s1 \<and> bucket s1 j \<noteq> [] then [] else [ErrorMarker nm ''discarded''])"
      have res: "AddTask_pool be r nm d off rs k s = (st, evs, s1)"
        using None m None' s2 by (simp add: AddTask_pool_def l st_def evs_def)
      have "producer_frame s1 (st, evs, s1)"
        by (rule producer_frame_return) (auto simp: st_def evs_def)
      with l have "producer_frame s (st, evs, s1)"
        by (rule producer_frame_resPool_at)
      then show ?thesis by (simp only: res)
    next
      case (Some tmp)
      let ?s3 = "emplace_back s2 j tmp"
      obtain st evs s4 where c: "AddTask_copy be r nm d off rs (store_next s2) ?s3 = (st, evs, s4)"
        by (cases "AddTask_copy be r nm d off rs (store_next s2) ?s3") auto
      have res: "AddTask_pool be r nm d off rs k s = (st, [Allocation (dwMemType ri') rs] @ evs, s4)"
        using None m Some c by (simp add: AddTask_pool_def l)
      have "producer_frame ?s3 (AddTask_copy be r nm d off rs (store_next s2) ?s3)"
        by (intro AddTask_copy_frame) simp
      then have f3: "producer_frame ?s3 (st, evs, s4)" by (simp add: c)
      from same have fl: "m_ready4Dump s2 = m_ready4Dump s" "m_stopScheduler s2 = m_stopScheduler s"
        "m_resQueue s2 = m_resQueue s" "store s2 = store s"
        "policy (m_memMng1st s2) = policy (m_memMng1st s)" "cap (m_memMng1st s2) = cap (m_memMng1st s)"
        "policy (m_memMng2nd s2) = policy (m_memMng2nd s)" "cap (m_memMng2nd s2) = cap (m_memMng2nd s)"
        by (simp_all add: same_but_usage_def fs)
      have st3: "store_inv ?s3 \<and> (\<forall>b \<in> set (m_resQueue s). store ?s3 b = store s b)" if i: "store_inv s"
      proof -
        from i l have "store_inv s1" by (rule store_inv_resPool_at)
        with same have i2: "store_inv s2" by (simp add: same_but_usage_store_inv)
        then have "store_inv ?s3" by (rule store_inv_emplace_back)
        moreover have "\<forall>b \<in> set (m_resQueue s). store ?s3 b = store s b"
          using emplace_back_queued [OF i2] fl by simp
        ultimately show ?thesis ..
      qed
      have t3: "usage (m_memMng1st ?s3) =
                  usage (m_memMng1st s) + charged (policy (m_memMng1st s)) [Allocation (dwMemType ri') rs] \<and>
                usage (m_memMng2nd ?s3) =
                  usage (m_memMng2nd s) + charged (policy (m_memMng2nd s)) [Allocation (dwMemType ri') rs] \<and>
                (usage (m_memMng1st s) \<le> cap (m_memMng1st s) \<and> usage (m_memMng2nd s) \<le> cap (m_memMng2nd s) \<longrightarrow>
                   usage (m_memMng1st ?s3) \<le> cap (m_memMng1st ?s3) \<and>
                   usage (m_memMng2nd ?s3) \<le> cap (m_memMng2nd ?s3))"
        if p: "policy (m_memMng1st s) \<noteq> policy (m_memMng2nd s)"
      proof -
        from p have p1: "policy (m_memMng1st s1) \<noteq> policy (m_memMng2nd s1)" by (simp add: fs)
        have m': "m_allocate be k rs s1 = (Some tmp, ri', s2)" using m Some by simp
        note f = m_allocate_Some [OF p1 m']
        have c: "cap (m_memMng1st ?s3) = cap (m_memMng1st s)" "cap (m_memMng2nd ?s3) = cap (m_memMng2nd s)"
          "usage (m_memMng1st ?s3) = usage (m_memMng1st s2)" "usage (m_memMng2nd ?s3) = usage (m_memMng2nd s2)"
          by (simp_all add: fl)
        have g1: "usage (m_memMng1st s2) =
                  usage (m_memMng1st s) + charged (policy (m_memMng1st s)) [Allocation (dwMemType ri') rs]"
          using f(1) by (simp add: fs del: charged.simps)
        have g2: "usage (m_memMng2nd s2) =
                  usage (m_memMng2nd s) + charged (policy (m_memMng2nd s)) [Allocation (dwMemType ri') rs]"
          using f(2) by (simp add: fs del: charged.simps)
        have g3: "usage (m_memMng1st s) \<le> cap (m_memMng1st s) \<and> usage (m_memMng2nd s) \<le> cap (m_memMng2nd s) \<longrightarrow>
                   usage (m_memMng1st s2) \<le> cap (m_memMng1st s) \<and>
                   usage (m_memMng2nd s2) \<le> cap (m_memMng2nd s)"
          using f(3) by (simp add: fs del: charged.simps)
        show ?thesis
          unfolding c using g1 g2 g3 by (intro conjI)
      qed
      have "producer_frame s (st, [Allocation (dwMemType ri') rs] @ evs, s4)"
      proof (rule producer_frame_after [OF f3])
        show "store_inv ?s3 \<and> (\<forall>b \<in> set (m_resQueue s). store ?s3 b = store s b)" if "store_inv s"
          using that by (rule st3)
        show "usage (m_memMng1st ?s3) =
                  usage (m_memMng1st s) + charged (policy (m_memMng1st s)) [Allocation (dwMemType ri') rs] \<and>
                usage (m_memMng2nd ?s3) =
                  usage (m_memMng2nd s) + charged (policy (m_memMng2nd s)) [Allocation (dwMemType ri') rs] \<and>
                (usage (m_memMng1st s) \<le> cap (m_memMng1st s) \<and> usage (m_memMng2nd s) \<le> cap (m_memMng2nd s) \<longrightarrow>
                   usage (m_memMng1st ?s3) \<le> cap (m_memMng1st ?s3) \<and>
                   usage (m_memMng2nd ?s3) \<le> cap (m_memMng2nd ?s3))"
          if "policy (m_memMng1st s) \<noteq> policy (m_memMng2nd s)"
          using that by (rule t3)
      qed (simp_all add: fl)
      then show ?thesis by (simp only: res)
    qed
  qed
qed

lemma AddTask_wake_frame:
  "producer_frame s (AddTask_wake be r nm d off rs k s)"
proof (cases "find_unoccupied (store s) (bucket s k)")
  case None
  have "producer_frame s (Blocked rs k, [], s)"
    by (rule producer_frame_return) simp_all
  with None show ?thesis by (simp add: AddTask_wake_def)
next
  case (Some a)
  then have a: "a \<in> set (bucket s k)" "\<not> occupied (store s a)"
    by (auto dest: find_unoccupied_Some)
  have "producer_frame s (AddTask_copy be r nm d off rs a s)"
    using a bucket_bound [of s a k] by (intro AddTask_copy_frame) simp
  with Some show ?thesis by (simp add: AddTask_wake_def)
qed

lemma AddTask_frame:
  "producer_frame s (AddTask be r nm d off s)"
proof -
  have ret: "producer_frame s (Skipped, [], s)" "producer_frame s (Dropped, [ErrorMarker nm e], s)" for e
    by (rule producer_frame_return; simp)+
  have "producer_frame s (AddTask_resInfo be r nm d off rs s)" for rs
    by (cases "pfnGetResourceInfo be r") (simp_all add: AddTask_resInfo_def ret AddTask_pool_frame)
  then show ?thesis
    by (simp add: AddTask_def ret split: option.split)
qed

section \<open>The final loop of the scheduler\<close>

lemma drain_empty: "m_resQueue s = [] \<Longrightarrow> drain be s = (s, [], [])"
  by (subst drain.simps) simp

lemma drain_step:
  assumes "m_resQueue s \<noteq> []"
  shows "drain be s =
           (fst (drain be (s\<lparr>store := (store s)(hd (m_resQueue s) := (store s (hd (m_resQueue s)))\<lparr>occupied := False\<rparr>),
                            m_resQueue := tl (m_resQueue s)\<rparr>)),
            job_of s (hd (m_resQueue s)) #
              fst (snd (drain be (s\<lparr>store := (store s)(hd (m_resQueue s) := (store s (hd (m_resQueue s)))\<lparr>occupied := False\<rparr>),
                            m_resQueue := tl (m_resQueue s)\<rparr>))),
            DoDump be s (hd (m_resQueue s)) @
              snd (snd (drain be (s\<lparr>store := (store s)(hd (m_resQueue s) := (store s (hd (m_resQueue s)))\<lparr>occupied := False\<rparr>),
                            m_resQueue := tl (m_resQueue s)\<rparr>))))"
  using assms by (subst drain.simps) (simp add: Let_def split: prod.split)

lemma job_of_occupied [simp]:
  "job_of (s\<lparr>store := (store s)(a := (store s a)\<lparr>occupied := v\<rparr>), m_resQueue := q\<rparr>) b = job_of s b"
  by (simp add: job_of_def)

lemma drain_queue: "m_resQueue (fst (drain be s)) = []"
proof (induction be s rule: drain.induct)
  case (1 be s)
  show ?case
  proof (cases "m_resQueue s = []")
    case True
    then show ?thesis by (simp add: drain_empty)
  next
    case False
    with 1 show ?thesis by (simp add: drain_step)
  qed
qed

lemma drain_jobs: "fst (snd (drain be s)) = map (job_of s) (m_resQueue s)"
proof (induction be s rule: drain.induct)
  case (1 be s)
  show ?case
  proof (cases "m_resQueue s = []")
    case True
    then show ?thesis by (simp add: drain_empty)
  next
    case False
    then have "m_resQueue s = hd (m_resQueue s) # tl (m_resQueue s)" by simp
    then have "map (job_of s) (m_resQueue s) =
                 job_of s (hd (m_resQueue s)) # map (job_of s) (tl (m_resQueue s))"
      by (metis list.simps(9))
    with 1 False show ?thesis by (simp add: drain_step)
  qed
qed

lemma drain_store:
  "store (fst (drain be s)) a =
     (if a \<in> set (m_resQueue s) then (store s a)\<lparr>occupied := False\<rparr> else store s a)"
proof (induction be s arbitrary: a rule: drain.induct)
  case (1 be s)
  show ?case
  proof (cases "m_resQueue s = []")
    case True
    then show ?thesis by (simp add: drain_empty)
  next
    case False
    then have q: "m_resQueue s = hd (m_resQueue s) # tl (m_resQueue s)" by simp
    have m: "a \<in> set (m_resQueue s) \<longleftrightarrow> a = hd (m_resQueue s) \<or> a \<in> set (tl (m_resQueue s))"
      by (subst q) simp
    from 1 [OF False refl, of a] False show ?thesis
      by (simp add: drain_step m)
  qed
qed

lemma drain_frame:
  "store_next (fst (drain be s)) = store_next s \<and>
   m_resPool (fst (drain be s)) = m_resPool s \<and>
   m_memMng1st (fst (drain be s)) = m_memMng1st s \<and>
   m_memMng2nd (fst (drain be s)) = m_memMng2nd s \<and>
   m_ready4Dump (fst (drain be s)) = m_ready4Dump s \<and>
   m_stopScheduler (fst (drain be s)) = m_stopScheduler s"
proof (induction be s rule: drain.induct)
  case (1 be s)
  show ?case
  proof (cases "m_resQueue s = []")
    case True
    then show ?thesis by (simp add: drain_empty)
  next
    case False
    with 1 show ?thesis by (simp add: drain_step)
  qed
qed

lemma DoDump_occupied [simp]:
  "DoDump be (s\<lparr>store := (store s)(b := (store s b)\<lparr>occupied := v\<rparr>), m_resQueue := q\<rparr>) a =
     DoDump be s a"
  by (cases "a = b")
    (simp_all add: DoDump_def m_write_def m_writeError_def
      split: m_write_closure.split m_writeError_closure.split)

lemma drain_out: "snd (snd (drain be s)) = concat (map (DoDump be s) (m_resQueue s))"
proof (induction be s rule: drain.induct)
  case (1 be s)
  show ?case
  proof (cases "m_resQueue s = []")
    case True
    then show ?thesis by (simp add: drain_empty)
  next
    case False
    then have "m_resQueue s = hd (m_resQueue s) # tl (m_resQueue s)" by simp
    then have "concat (map (DoDump be s) (m_resQueue s)) =
                 DoDump be s (hd (m_resQueue s)) @ concat (map (DoDump be s) (tl (m_resQueue s)))"
      by (metis concat.simps(2) list.simps(9))
    with 1 False show ?thesis by (simp add: drain_step)
  qed
qed

section \<open>The invariant of the pipeline\<close>

lemma inv_start: "pipeline_inv (start adapter cfg)"
proof -
  have "store_inv (MediaDebugFastDumpImp adapter cfg)"
    by (rule store_invI) (simp_all add: MediaDebugFastDumpImp_def Let_def)
  moreover have "sched_inv (start adapter cfg)"
    by (simp add: sched_inv_def start_def MediaDebugFastDumpImp_def Let_def)
  moreover have "tier_inv (start adapter cfg)"
    by (simp add: tier_inv_def start_def MediaDebugFastDumpImp_def Let_def)
  moreover have "fifo_inv (start adapter cfg)"
    by (simp add: fifo_inv_def pending_def start_def MediaDebugFastDumpImp_def Let_def)
  moreover have "done_inv (start adapter cfg)"
    by (simp add: done_inv_def start_def)
  ultimately show ?thesis
    by (simp add: pipeline_inv_def start_def)
qed

lemma producer_frameD:
  assumes "producer_frame s (st, evs, s')"
  shows "m_ready4Dump s' = m_ready4Dump s"
    and "m_stopScheduler s' = m_stopScheduler s"
    and "m_resQueue s' = m_resQueue s @ (case st of Staged a \<Rightarrow> [a] | _ \<Rightarrow> [])"
    and "policy (m_memMng1st s') = policy (m_memMng1st s)"
    and "cap (m_memMng1st s') = cap (m_memMng1st s)"
    and "policy (m_memMng2nd s') = policy (m_memMng2nd s)"
    and "cap (m_memMng2nd s') = cap (m_memMng2nd s)"
    and "store_inv s \<longrightarrow>
           store_inv s' \<and> (\<forall>b \<in> set (m_resQueue s). store s' b = store s b)"
    and "policy (m_memMng1st s) \<noteq> policy (m_memMng2nd s) \<longrightarrow>
           usage (m_memMng1st s') =
             usage (m_memMng1st s) + charged (policy (m_memMng1st s)) evs \<and>
           usage (m_memMng2nd s') =
             usage (m_memMng2nd s) + charged (policy (m_memMng2nd s)) evs \<and>
           (usage (m_memMng1st s) \<le> cap (m_memMng1st s) \<and>
            usage (m_memMng2nd s) \<le> cap (m_memMng2nd s) \<longrightarrow>
              usage (m_memMng1st s') \<le> cap (m_memMng1st s') \<and>
              usage (m_memMng2nd s') \<le> cap (m_memMng2nd s'))"
  using assms unfolding producer_frame_def prod.case
  by - (elim conjE, assumption)+

lemma tier_invD:
  assumes "tier_inv s"
  shows "policy (m_memMng1st (imp s)) = MOS_MEMPOOL_SYSTEMMEMORY"
    and "policy (m_memMng2nd (imp s)) = MOS_MEMPOOL_VIDEOMEMORY"
    and "usage (m_memMng1st (imp s)) = charged MOS_MEMPOOL_SYSTEMMEMORY (reported s)"
    and "usage (m_memMng2nd (imp s)) = charged MOS_MEMPOOL_VIDEOMEMORY (reported s)"
    and "usage (m_memMng1st (imp s)) \<le> cap (m_memMng1st (imp s))"
    and "usage (m_memMng2nd (imp s)) \<le> cap (m_memMng2nd (imp s))"
  using assms unfolding tier_inv_def
  by - (elim conjE, assumption)+

lemma sched_invD:
  assumes "sched_inv s"
  shows "length (workers s) \<le> 1"
    and "m_ready4Dump (imp s) \<longleftrightarrow> workers s = []"
    and "\<And>w. w \<in> set (workers s) \<Longrightarrow>
           future s = Some (fst w) \<and> m_resQueue (imp s) \<noteq> [] \<and>
           hd (m_resQueue (imp s)) = fst (snd w)"
    and "sched s = Stopped \<Longrightarrow> workers s = []"
  using assms unfolding sched_inv_def by blast+

lemma pending_subset: "set (pending s) \<subseteq> set (m_resQueue (imp s))"
  by (cases "m_resQueue (imp s)") (auto simp: pending_def)

lemma inv_producer:
  assumes inv: "pipeline_inv s" and f: "producer_frame (imp s) (st, evs, i')"
  shows "pipeline_inv (after_AddTask (s\<lparr>waiters := w\<rparr>) r nm d off (st, evs, i'))"
proof -
  define s' where "s' = after_AddTask (s\<lparr>waiters := w\<rparr>) r nm d off (st, evs, i')"
  define new where "new = (case st of Staged a \<Rightarrow> [a] | _ \<Rightarrow> [])"
  have s': "imp s' = i'" "workers s' = workers s" "future s' = future s" "sched s' = sched s"
    "dumped s' = dumped s" "reported s' = reported s @ evs"
    "submitted s' = submitted s @ map (job_of i') new"
    by (cases st; simp add: s'_def after_AddTask_def new_def)+
  from inv have si: "store_inv (imp s)" and sc: "sched_inv s" and ti: "tier_inv s" and fi: "fifo_inv s"
    and di: "done_inv s"
    by (simp_all add: pipeline_inv_def)
  note rd = producer_frameD(1) [OF f] and pc = producer_frameD(4-7) [OF f]
    and st = producer_frameD(8) [OF f] and tr = producer_frameD(9) [OF f]
  have q: "m_resQueue i' = m_resQueue (imp s) @ new"
    using producer_frameD(3) [OF f] by (simp add: new_def)
  from st si have si': "store_inv i'"
    and same: "\<And>b. b \<in> set (m_resQueue (imp s)) \<Longrightarrow> store i' b = store (imp s) b"
    by simp_all
  have sc': "sched_inv s'"
    using sc unfolding sched_inv_def s' rd q by auto
  note pol = tier_invD(1,2) [OF ti] and us = tier_invD(3,4) [OF ti] and le = tier_invD(5,6) [OF ti]
  have dp: "policy (m_memMng1st (imp s)) \<noteq> policy (m_memMng2nd (imp s))"
    by (simp add: pol)
  from tr dp have t0: "usage (m_memMng1st i') =
               usage (m_memMng1st (imp s)) + charged (policy (m_memMng1st (imp s))) evs \<and>
             usage (m_memMng2nd i') =
               usage (m_memMng2nd (imp s)) + charged (policy (m_memMng2nd (imp s))) evs \<and>
             (usage (m_memMng1st (imp s)) \<le> cap (m_memMng1st (imp s)) \<and>
              usage (m_memMng2nd (imp s)) \<le> cap (m_memMng2nd (imp s)) \<longrightarrow>
                usage (m_memMng1st i') \<le> cap (m_memMng1st i') \<and>
                usage (m_memMng2nd i') \<le> cap (m_memMng2nd i'))"
    by (rule mp)
  from t0 have e1: "usage (m_memMng1st i') =
               usage (m_memMng1st (imp s)) + charged MOS_MEMPOOL_SYSTEMMEMORY evs"
    unfolding pol by (elim conjE)
  from t0 have e2: "usage (m_memMng2nd i') =
               usage (m_memMng2nd (imp s)) + charged MOS_MEMPOOL_VIDEOMEMORY evs"
    unfolding pol by (elim conjE)
  from t0 le have e3: "usage (m_memMng1st i') \<le> cap (m_memMng1st i')"
    and e4: "usage (m_memMng2nd i') \<le> cap (m_memMng2nd i')"
    by blast+
  have ti': "tier_inv s'"
    unfolding tier_inv_def s'
  proof (intro conjI)
    show "policy (m_memMng1st i') = MOS_MEMPOOL_SYSTEMMEMORY" using pc(1) pol(1) by simp
    show "policy (m_memMng2nd i') = MOS_MEMPOOL_VIDEOMEMORY" using pc(3) pol(2) by simp
    show "usage (m_memMng1st i') = charged MOS_MEMPOOL_SYSTEMMEMORY (reported s @ evs)"
      unfolding charged_append e1 us(1) by (rule refl)
    show "usage (m_memMng2nd i') = charged MOS_MEMPOOL_VIDEOMEMORY (reported s @ evs)"
      unfolding charged_append e2 us(2) by (rule refl)
    show "usage (m_memMng1st i') \<le> cap (m_memMng1st i')" by (rule e3)
    show "usage (m_memMng2nd i') \<le> cap (m_memMng2nd i')" by (rule e4)
  qed
  have pend: "pending s' = pending s @ new"
  proof (cases "list_ex (\<lambda>w. snd (snd w)) (workers s)")
    case False
    then show ?thesis by (simp add: pending_def s' q)
  next
    case True
    then obtain w where "w \<in> set (workers s)" by (auto simp: list_ex_iff)
    with sched_invD(3) [OF sc] have "m_resQueue (imp s) \<noteq> []" by blast
    with True show ?thesis by (simp add: pending_def s' q)
  qed
  have "map (job_of i') (pending s) = map (job_of (imp s)) (pending s)"
  proof (rule map_cong [OF refl])
    fix b assume "b \<in> set (pending s)"
    then have "b \<in> set (m_resQueue (imp s))" using pending_subset by blast
    then show "job_of i' b = job_of (imp s) b" by (simp add: job_of_def same)
  qed
  with fi have fi': "fifo_inv s'"
    by (simp add: fifo_inv_def s' pend)
  have di': "done_inv s'"
    unfolding done_inv_def s'
  proof (intro ballI impI)
    fix w assume w: "w \<in> set (workers s)" "snd (snd w)"
    with di have l: "dumped s \<noteq> [] \<and> last (dumped s) = job_of (imp s) (fst (snd w))"
      unfolding done_inv_def by blast
    from sched_invD(3) [OF sc w(1)] have "fst (snd w) \<in> set (m_resQueue (imp s))"
      by (metis hd_in_set)
    then have "job_of i' (fst (snd w)) = job_of (imp s) (fst (snd w))"
      by (simp add: job_of_def same)
    with l show "dumped s \<noteq> [] \<and> last (dumped s) = job_of i' (fst (snd w))" by simp
  qed
  from si' sc' ti' fi' di' show ?thesis
    by (simp add: pipeline_inv_def s' s'_def [symmetric])
qed

lemma store_inv_flags [simp]:
  "store_inv (s\<lparr>m_ready4Dump := x\<rparr>) = store_inv s"
  "store_inv (s\<lparr>m_stopScheduler := y\<rparr>) = store_inv s"
  by (simp_all add: store_inv_def)

lemma job_of_flags [simp]:
  "job_of (s\<lparr>m_ready4Dump := x\<rparr>) = job_of s"
  "job_of (s\<lparr>m_stopScheduler := y\<rparr>) = job_of s"
  by (simp_all add: job_of_def fun_eq_iff)

lemma tier_inv_cong:
  "m_memMng1st (imp s') = m_memMng1st (imp s) \<Longrightarrow> m_memMng2nd (imp s') = m_memMng2nd (imp s) \<Longrightarrow>
   reported s' = reported s \<Longrightarrow> tier_inv s' = tier_inv s"
  by (simp add: tier_inv_def)

lemma sched_inv_cong:
  "workers s' = workers s \<Longrightarrow> future s' = future s \<Longrightarrow> (sched s' = Stopped) = (sched s = Stopped) \<Longrightarrow>
   m_ready4Dump (imp s') = m_ready4Dump (imp s) \<Longrightarrow> m_resQueue (imp s') = m_resQueue (imp s) \<Longrightarrow>
   sched_inv s' = sched_inv s"
  by (simp add: sched_inv_def)

lemma fifo_inv_cong:
  "submitted s' = submitted s \<Longrightarrow> dumped s' = dumped s \<Longrightarrow> workers s' = workers s \<Longrightarrow>
   m_resQueue (imp s') = m_resQueue (imp s) \<Longrightarrow> job_of (imp s') = job_of (imp s) \<Longrightarrow>
   fifo_inv s' = fifo_inv s"
  by (simp add: fifo_inv_def pending_def)

lemma done_inv_cong:
  "dumped s' = dumped s \<Longrightarrow> workers s' = workers s \<Longrightarrow> job_of (imp s') = job_of (imp s) \<Longrightarrow>
   done_inv s' = done_inv s"
  by (simp add: done_inv_def)

lemma single_worker:
  assumes "length ws \<le> 1" "map_of ws t = Some v"
  shows "ws = [(t, v)]"
proof (cases ws)
  case Nil
  with assms(2) show ?thesis by simp
next
  case (Cons w ws')
  with assms(1) have "ws' = []" by simp
  with Cons assms(2) show ?thesis by (cases w) (simp split: if_splits)
qed

lemma no_worker:
  assumes sc: "sched_inv s"
    and fin: "case future s of None \<Rightarrow> True | Some t \<Rightarrow> map_of (workers s) t = None"
  shows "workers s = []"
proof (cases "workers s")
  case Nil
  then show ?thesis .
next
  case (Cons w ws)
  then have w: "w \<in> set (workers s)" by simp
  with sched_invD(3) [OF sc] have f: "future s = Some (fst w)" by blast
  with fin have "map_of (workers s) (fst w) = None" by simp
  then have "fst w \<notin> fst ` set (workers s)" by (simp add: map_of_eq_None_iff)
  with w show ?thesis by blast
qed

lemma inv_Dispatch:
  assumes inv: "pipeline_inv s" and st: "step Dispatch s = Some s'"
  shows "pipeline_inv s'"
proof -
  from inv have si: "store_inv (imp s)" and sc: "sched_inv s" and ti: "tier_inv s" and fi: "fifo_inv s"
    and di: "done_inv s"
    by (simp_all add: pipeline_inv_def)
  from st have g: "sched s = InLoop" "m_ready4Dump (imp s)" "m_resQueue (imp s) \<noteq> []"
    by (simp_all split: if_splits)
  with st have s': "s' = s\<lparr>imp := (imp s)\<lparr>m_ready4Dump := False\<rparr>,
                workers := workers s @ [(next_task s, hd (m_resQueue (imp s)), False)],
                future := Some (next_task s),
                next_task := Suc (next_task s)\<rparr>"
    by (simp split: if_splits)
  from sched_invD(2) [OF sc] g(2) have w: "workers s = []" by simp
  have "store_inv (imp s')" using si by (simp add: s')
  moreover have "sched_inv s'" using g by (simp add: sched_inv_def s' w)
  moreover have "tier_inv s'"
  proof -
    have "tier_inv s' = tier_inv s" by (rule tier_inv_cong) (simp_all add: s')
    with ti show ?thesis by simp
  qed
  moreover have "fifo_inv s'" using fi by (simp add: fifo_inv_def pending_def s' w)
  moreover have "done_inv s'" by (simp add: done_inv_def s' w)
  ultimately show ?thesis by (simp add: pipeline_inv_def)
qed

lemma inv_RunDump:
  assumes inv: "pipeline_inv s" and st: "step (RunDump be t) s = Some s'"
  shows "pipeline_inv s'"
proof -
  from inv have si: "store_inv (imp s)" and sc: "sched_inv s" and ti: "tier_inv s" and fi: "fifo_inv s"
    and di: "done_inv s"
    by (simp_all add: pipeline_inv_def)
  from st obtain qf where m: "map_of (workers s) t = Some (qf, False)"
    by (auto split: option.splits bool.splits)
  from single_worker [OF sched_invD(1) [OF sc] m] have w: "workers s = [(t, qf, False)]" .
  from st m have s': "s' = s\<lparr>workers := map (\<lambda>w. if fst w = t then (t, qf, True) else w) (workers s),
                  dumped := dumped s @ [job_of (imp s) qf],
                  sunk := sunk s @ DoDump be (imp s) qf\<rparr>"
    by simp
  from sched_invD(3) [OF sc, of "(t, qf, False)"] w
  have q: "m_resQueue (imp s) \<noteq> []" "hd (m_resQueue (imp s)) = qf" "future s = Some t" by simp_all
  have "store_inv (imp s')" using si by (simp add: s')
  moreover have "sched_inv s'" using sc q by (simp add: sched_inv_def s' w)
  moreover have "tier_inv s'"
  proof -
    have "tier_inv s' = tier_inv s" by (rule tier_inv_cong) (simp_all add: s')
    with ti show ?thesis by simp
  qed
  moreover have "fifo_inv s'"
  proof -
    from q have "m_resQueue (imp s) = qf # tl (m_resQueue (imp s))" by (cases "m_resQueue (imp s)") simp_all
    then have "map (job_of (imp s)) (m_resQueue (imp s)) =
               job_of (imp s) qf # map (job_of (imp s)) (tl (m_resQueue (imp s)))"
      by (metis list.simps(9))
    with fi show ?thesis by (simp add: fifo_inv_def pending_def s' w)
  qed
  moreover have "done_inv s'" by (simp add: done_inv_def s' w)
  ultimately show ?thesis by (simp add: pipeline_inv_def)
qed

lemma inv_Finish:
  assumes inv: "pipeline_inv s" and st: "step (Finish t) s = Some s'"
  shows "pipeline_inv s'"
proof -
  from inv have si: "store_inv (imp s)" and sc: "sched_inv s" and ti: "tier_inv s" and fi: "fifo_inv s"
    and di: "done_inv s"
    by (simp_all add: pipeline_inv_def)
  from st obtain qf where m: "map_of (workers s) t = Some (qf, True)"
    by (auto split: option.splits bool.splits)
  from single_worker [OF sched_invD(1) [OF sc] m] have w: "workers s = [(t, qf, True)]" .
  let ?q = "m_resQueue (imp s)"
  define i' where "i' = (imp s)\<lparr>store := (store (imp s))
                          (hd ?q := (store (imp s) (hd ?q))\<lparr>occupied := False\<rparr>),
                        m_resQueue := tl ?q,
                        m_ready4Dump := True\<rparr>"
  from st m have q: "?q \<noteq> []" by (auto split: if_splits)
  with st m have s': "s' = s\<lparr>imp := i', workers := filter (\<lambda>w. fst w \<noteq> t) (workers s)\<rparr>"
    by (simp add: i'_def)
  from q have qq: "?q = hd ?q # tl ?q" by simp
  note d = store_inv_distinct [OF si] and qo = store_inv_queued [OF si]
    and oq = store_inv_occupied [OF si] and pl = store_inv_pool [OF si]
  from d qq have hn: "hd ?q \<notin> set (tl ?q)" by (metis distinct.simps(2))
  have i'f: "m_resQueue i' = tl ?q" "store_next i' = store_next (imp s)" "m_resPool i' = m_resPool (imp s)"
    "\<not> occupied (store i' (hd ?q))" "m_ready4Dump i'"
    "m_memMng1st i' = m_memMng1st (imp s)" "m_memMng2nd i' = m_memMng2nd (imp s)"
    by (simp_all add: i'_def)
  have same: "b \<noteq> hd ?q \<Longrightarrow> store i' b = store (imp s) b" for b by (simp add: i'_def)
  have tlq: "b \<in> set (tl ?q) \<Longrightarrow> b \<in> set ?q" for b using qq by (metis list.set_intros(2))
  have "store_inv i'"
  proof (rule store_invI)
    show "distinct (m_resQueue i')" using d by (simp add: i'f distinct_tl)
  next
    fix a assume "a \<in> set (m_resQueue i')"
    then have a: "a \<in> set (tl ?q)" by (simp add: i'f)
    with hn have "a \<noteq> hd ?q" by blast
    with qo [OF tlq [OF a]] show "a < store_next i' \<and> occupied (store i' a)"
      by (simp add: i'f same)
  next
    fix a assume a: "a < store_next i'" "occupied (store i' a)"
    with i'f(4) have ne: "a \<noteq> hd ?q" by blast
    with a have "a \<in> set ?q" using oq by (simp add: i'f same)
    with ne show "a \<in> set (m_resQueue i')" using qq by (metis i'f(1) set_ConsD)
  next
    fix n a assume "n \<in> set (m_resPool i')" "a \<in> set (snd n)"
    then show "a < store_next i'" using pl by (simp add: i'f)
  qed
  then have "store_inv (imp s')" by (simp add: s')
  moreover have "sched_inv s'" by (simp add: sched_inv_def s' w i'f)
  moreover have "tier_inv s'"
  proof -
    have "tier_inv s' = tier_inv s" by (rule tier_inv_cong) (simp_all add: s' i'f)
    with ti show ?thesis by simp
  qed
  moreover have "fifo_inv s'"
  proof -
    have "job_of i' = job_of (imp s)" by (simp add: job_of_def i'_def fun_eq_iff)
    with fi show ?thesis by (simp add: fifo_inv_def pending_def s' w i'f)
  qed
  moreover have "done_inv s'" by (simp add: done_inv_def s' w)
  ultimately show ?thesis by (simp add: pipeline_inv_def)
qed

lemma inv_Shutdown:
  assumes inv: "pipeline_inv s" and st: "step (Shutdown be) s = Some s'"
  shows "pipeline_inv s'"
proof -
  from inv have si: "store_inv (imp s)" and sc: "sched_inv s" and ti: "tier_inv s" and fi: "fifo_inv s"
    and di: "done_inv s"
    by (simp_all add: pipeline_inv_def)
  from st have g: "case future s of None \<Rightarrow> True | Some t \<Rightarrow> map_of (workers s) t = None"
    by (simp split: if_splits)
  from no_worker [OF sc g] have w: "workers s = []" .
  let ?i' = "fst (drain be (imp s))"
  from st have s': "s' = s\<lparr>imp := ?i', dumped := dumped s @ fst (snd (drain be (imp s))),
                     sunk := sunk s @ snd (snd (drain be (imp s))), sched := Stopped\<rparr>"
    by (simp split: if_splits prod.splits)
  note oq = store_inv_occupied [OF si] and pl = store_inv_pool [OF si]
  note fr = drain_frame [of be "imp s"]
  have "store_inv ?i'"
  proof (rule store_invI)
    show "distinct (m_resQueue ?i')" by (simp add: drain_queue)
  next
    fix a assume "a \<in> set (m_resQueue ?i')"
    then show "a < store_next ?i' \<and> occupied (store ?i' a)" by (simp add: drain_queue)
  next
    fix a assume a: "a < store_next ?i'" "occupied (store ?i' a)"
    from a(2) have "a \<notin> set (m_resQueue (imp s))" "occupied (store (imp s) a)"
      by (simp_all add: drain_store split: if_splits)
    with a(1) oq fr have False by simp
    then show "a \<in> set (m_resQueue ?i')" ..
  next
    fix n a assume "n \<in> set (m_resPool ?i')" "a \<in> set (snd n)"
    then show "a < store_next ?i'" using pl fr by simp
  qed
  then have "store_inv (imp s')" by (simp add: s')
  moreover have "sched_inv s'"
    using sched_invD(2) [OF sc] fr by (simp add: sched_inv_def s' w)
  moreover have "tier_inv s'"
  proof -
    have "tier_inv s' = tier_inv s" by (rule tier_inv_cong) (simp_all add: s' fr)
    with ti show ?thesis by simp
  qed
  moreover have "fifo_inv s'"
    using fi by (simp add: fifo_inv_def pending_def s' w drain_jobs drain_queue)
  moreover have "done_inv s'" by (simp add: done_inv_def s' w)
  ultimately show ?thesis by (simp add: pipeline_inv_def)
qed

lemma inv_step:
  assumes inv: "pipeline_inv s" and st: "step a s = Some s'"
  shows "pipeline_inv s'"
proof (cases a)
  case (Submit be r nm d off)
  obtain st0 evs i' where r: "AddTask be r nm d off (imp s) = (st0, evs, i')"
    by (cases "AddTask be r nm d off (imp s)") auto
  have "producer_frame (imp s) (st0, evs, i')"
    using AddTask_frame [of "imp s" be r nm d off] by (simp add: r)
  from inv_producer [OF inv this, of "waiters s" r nm d off]
  show ?thesis using st Submit by (simp add: r)
next
  case (Wake be n)
  with st have n: "n < length (waiters s)" by (simp split: if_splits)
  obtain r nm d off rs k where w: "waiters s ! n = (r, nm, d, off, rs, k)"
    by (cases "waiters s ! n") auto
  obtain st0 evs i' where r: "AddTask_wake be r nm d off rs k (imp s) = (st0, evs, i')"
    by (cases "AddTask_wake be r nm d off rs k (imp s)") auto
  have "producer_frame (imp s) (st0, evs, i')"
    using AddTask_wake_frame [of "imp s" be r nm d off rs k] by (simp add: r)
  from inv_producer [OF inv this, of "take n (waiters s) @ drop (Suc n) (waiters s)" r nm d off]
  show ?thesis using st Wake n by (simp add: w r)
next
  case Dispatch
  with inv st show ?thesis by (simp only: inv_Dispatch)
next
  case (RunDump be t)
  with inv st show ?thesis by (blast intro: inv_RunDump)
next
  case (Finish t)
  with inv st show ?thesis by (blast intro: inv_Finish)
next
  case Destroy
  with st have s': "s' = s\<lparr>imp := (imp s)\<lparr>m_stopScheduler := True\<rparr>\<rparr>" by simp
  have "store_inv (imp s') = store_inv (imp s)" by (simp add: s')
  moreover have "sched_inv s' = sched_inv s" by (rule sched_inv_cong) (simp_all add: s')
  moreover have "tier_inv s' = tier_inv s" by (rule tier_inv_cong) (simp_all add: s')
  moreover have "fifo_inv s' = fifo_inv s" by (rule fifo_inv_cong) (simp_all add: s')
  moreover have "done_inv s' = done_inv s" by (rule done_inv_cong) (simp_all add: s')
  ultimately show ?thesis using inv by (simp add: pipeline_inv_def)
next
  case Break
  with st have s': "s' = s\<lparr>sched := WaitingFuture\<rparr>" and l: "sched s = InLoop"
    by (simp_all split: if_splits)
  have "store_inv (imp s') = store_inv (imp s)" by (simp add: s')
  moreover have "sched_inv s' = sched_inv s" by (rule sched_inv_cong) (simp_all add: s' l)
  moreover have "tier_inv s' = tier_inv s" by (rule tier_inv_cong) (simp_all add: s')
  moreover have "fifo_inv s' = fifo_inv s" by (rule fifo_inv_cong) (simp_all add: s')
  moreover have "done_inv s' = done_inv s" by (rule done_inv_cong) (simp_all add: s')
  ultimately show ?thesis using inv by (simp add: pipeline_inv_def)
next
  case (Shutdown be)
  with inv st show ?thesis by (blast intro: inv_Shutdown)
qed

lemma inv_run_from:
  "pipeline_inv s \<Longrightarrow> run as s = Some s' \<Longrightarrow> pipeline_inv s'"
proof (induction as arbitrary: s)
  case Nil
  then show ?case by simp
next
  case (Cons a as)
  from Cons.prems(2) obtain s1 where s1: "step a s = Some s1" "run as s1 = Some s'"
    by (auto split: option.splits)
  from inv_step [OF Cons.prems(1) s1(1)] have "pipeline_inv s1" .
  from Cons.IH [OF this s1(2)] show ?case .
qed

lemma inv_run: "run as (start adapter cfg) = Some s \<Longrightarrow> pipeline_inv s"
  using inv_start by (rule inv_run_from)

section \<open>Runs of the pipeline\<close>

lemma demo_runs: "run demo_run demo_start = Some demo_state"
  by (simp add: demo_state_def run_defs sys_defs)

lemma demo_state_facts:
  "workers demo_state = []"
  "sched demo_state = WaitingFuture"
  "future demo_state = Some 0"
  "m_resQueue (imp demo_state) = [1]"
  "submitted demo_state = [(0, ''first'', 0, 600), (1, ''second'', 0, 4)]"
  "dumped demo_state = [(0, ''first'', 0, 600)]"
  "reported demo_state =
     [Allocation MOS_MEMPOOL_SYSTEMMEMORY 600, Allocation MOS_MEMPOOL_VIDEOMEMORY 600]"
  "usage (m_memMng1st (imp demo_state)) = 600"
  "usage (m_memMng2nd (imp demo_state)) = 600"
  "cap (m_memMng1st (imp demo_state)) = 750"
  "cap (m_memMng2nd (imp demo_state)) = 1000"
  "job_of (imp demo_state) 1 = (1, ''second'', 0, 4)"
  "job_of (imp demo_state) (Suc 0) = (Suc 0, ''second'', 0, 4)"
  "m_resPool (imp demo_state) = [(key_ok, [0, 1])]"
  by (simp_all add: demo_state_def run_defs sys_defs)

section \<open>Usage of the tiers\<close>

lemma unat_charged: "unat (charged p evs) = charged_total p evs mod 2 ^ 64"
  by (induction p evs rule: charged.induct) (simp_all add: unat_word_ariths mod_add_right_eq)

text \<open>
  Claim C6. In every state the pipeline reaches, the usage of each tier is the sum of the sizes
  charged for the buffers the backend has allocated with the memory type of that tier (a sum in
  \<open>size_t\<close>, as the source computes it), and no usage exceeds its capacity. In such a state
  \<open>m_allocate\<close> charges the requested size to the first tier when the check
  \<open>usage + size \<le> capacity\<close> of the first tier passes and the backend allocates; otherwise,
  with the two-tier allocator, to the second tier when the check of the second tier passes and
  the backend allocates; it answers false and changes nothing in every other case. The release
  of a buffer, by a task that has finished or by the final loop, changes neither tier.
\<close>

theorem tier_usage:
  assumes "run as (start adapter cfg) = Some s"
  shows "usage (m_memMng1st (imp s)) = charged MOS_MEMPOOL_SYSTEMMEMORY (reported s) \<and>
         usage (m_memMng2nd (imp s)) = charged MOS_MEMPOOL_VIDEOMEMORY (reported s) \<and>
         usage (m_memMng1st (imp s)) \<le> cap (m_memMng1st (imp s)) \<and>
         usage (m_memMng2nd (imp s)) \<le> cap (m_memMng2nd (imp s)) \<and>
         m_allocate be ri sz (imp s) =
           (if \<not> usage (m_memMng1st (imp s)) + sz > cap (m_memMng1st (imp s)) then
              (case pfnAllocateResource be (ri\<lparr>dwMemType := MOS_MEMPOOL_SYSTEMMEMORY\<rparr>) of
                 Some r \<Rightarrow>
                   (Some r, ri\<lparr>dwMemType := MOS_MEMPOOL_SYSTEMMEMORY\<rparr>,
                    (imp s)\<lparr>m_memMng1st := (m_memMng1st (imp s))
                               \<lparr>usage := usage (m_memMng1st (imp s)) + sz\<rparr>\<rparr>)
               | None \<Rightarrow> (None, ri\<lparr>dwMemType := MOS_MEMPOOL_SYSTEMMEMORY\<rparr>, imp s))
            else if m_allocate_sel (imp s) = TwoTiers \<and>
                    \<not> usage (m_memMng2nd (imp s)) + sz > cap (m_memMng2nd (imp s)) then
              (case pfnAllocateResource be (ri\<lparr>dwMemType := MOS_MEMPOOL_VIDEOMEMORY\<rparr>) of
                 Some r \<Rightarrow>
                   (Some r, ri\<lparr>dwMemType := MOS_MEMPOOL_VIDEOMEMORY\<rparr>,
                    (imp s)\<lparr>m_memMng2nd := (m_memMng2nd (imp s))
                               \<lparr>usage := usage (m_memMng2nd (imp s)) + sz\<rparr>\<rparr>)
               | None \<Rightarrow> (None, ri\<lparr>dwMemType := MOS_MEMPOOL_VIDEOMEMORY\<rparr>, imp s))
            else (None, ri, imp s)) \<and>
         (\<forall>t s'. step (Finish t) s = Some s' \<longrightarrow>
            m_memMng1st (imp s') = m_memMng1st (imp s) \<and>
            m_memMng2nd (imp s') = m_memMng2nd (imp s)) \<and>
         (\<forall>be' s'. step (Shutdown be') s = Some s' \<longrightarrow>
            m_memMng1st (imp s') = m_memMng1st (imp s) \<and>
            m_memMng2nd (imp s') = m_memMng2nd (imp s))"
proof -
  from inv_run [OF assms] have ti: "tier_inv s" by (simp add: pipeline_inv_def)
  note t = tier_invD [OF ti]
  have d: "policy (m_memMng1st (imp s)) \<noteq> policy (m_memMng2nd (imp s))"
    by (simp add: t(1,2))
  have a: "m_allocate be ri sz (imp s) =
           (if \<not> usage (m_memMng1st (imp s)) + sz > cap (m_memMng1st (imp s)) then
              (case pfnAllocateResource be (ri\<lparr>dwMemType := MOS_MEMPOOL_SYSTEMMEMORY\<rparr>) of
                 Some r \<Rightarrow>
                   (Some r, ri\<lparr>dwMemType := MOS_MEMPOOL_SYSTEMMEMORY\<rparr>,
                    (imp s)\<lparr>m_memMng1st := (m_memMng1st (imp s))
                               \<lparr>usage := usage (m_memMng1st (imp s)) + sz\<rparr>\<rparr>)
               | None \<Rightarrow> (None, ri\<lparr>dwMemType := MOS_MEMPOOL_SYSTEMMEMORY\<rparr>, imp s))
            else if m_allocate_sel (imp s) = TwoTiers \<and>
                    \<not> usage (m_memMng2nd (imp s)) + sz > cap (m_memMng2nd (imp s)) then
              (case pfnAllocateResource be (ri\<lparr>dwMemType := MOS_MEMPOOL_VIDEOMEMORY\<rparr>) of
                 Some r \<Rightarrow>
                   (Some r, ri\<lparr>dwMemType := MOS_MEMPOOL_VIDEOMEMORY\<rparr>,
                    (imp s)\<lparr>m_memMng2nd := (m_memMng2nd (imp s))
                               \<lparr>usage := usage (m_memMng2nd (imp s)) + sz\<rparr>\<rparr>)
               | None \<Rightarrow> (None, ri\<lparr>dwMemType := MOS_MEMPOOL_VIDEOMEMORY\<rparr>, imp s))
            else (None, ri, imp s))"
    unfolding m_allocate_tiers [OF d] t(1) t(2) by (rule refl)
  have f: "\<forall>t s'. step (Finish t) s = Some s' \<longrightarrow>
            m_memMng1st (imp s') = m_memMng1st (imp s) \<and>
            m_memMng2nd (imp s') = m_memMng2nd (imp s)"
    by (auto split: option.splits bool.splits if_splits)
  have sh: "\<forall>be' s'. step (Shutdown be') s = Some s' \<longrightarrow>
            m_memMng1st (imp s') = m_memMng1st (imp s) \<and>
            m_memMng2nd (imp s') = m_memMng2nd (imp s)"
  proof (intro allI impI)
    fix be' s' assume "step (Shutdown be') s = Some s'"
    then have "imp s' = fst (drain be' (imp s))"
      by (auto split: if_splits prod.splits)
    then show "m_memMng1st (imp s') = m_memMng1st (imp s) \<and>
            m_memMng2nd (imp s') = m_memMng2nd (imp s)"
      using drain_frame [of be' "imp s"] by simp
  qed
  show ?thesis
    by (intro conjI) (rule t(3), rule t(4), rule t(5), rule t(6), rule a, rule f, rule sh)
qed

theorem tier_usage_witness:
  "usage (m_memMng1st (imp demo_state)) = 600 \<and>
   usage (m_memMng2nd (imp demo_state)) = 600 \<and>
   charged MOS_MEMPOOL_SYSTEMMEMORY (reported demo_state) = 600 \<and>
   charged MOS_MEMPOOL_VIDEOMEMORY (reported demo_state) = 600 \<and>
   cap (m_memMng1st (imp demo_state)) = 750 \<and>
   cap (m_memMng2nd (imp demo_state)) = 1000 \<and>
   fst (m_allocate backend_ok key_ok 600 (imp demo_state)) = None \<and>
   fst (m_allocate backend_ok key_ok 100 (imp demo_state)) =
     Some \<lparr>handle = 1, pGmmResInfo = Some 4096\<rparr>"
proof -
  note t = tier_usage [OF demo_runs [unfolded demo_start_def]]
  note u1 = t [of backend_ok key_ok 600, THEN conjunct1]
  note u2 = t [of backend_ok key_ok 600, THEN conjunct2, THEN conjunct1]
  note a600 = t [of backend_ok key_ok 600, THEN conjunct2, THEN conjunct2, THEN conjunct2,
      THEN conjunct2, THEN conjunct1]
  note a100 = t [of backend_ok key_ok 100, THEN conjunct2, THEN conjunct2, THEN conjunct2,
      THEN conjunct2, THEN conjunct1]
  have m: "m_allocate_sel (imp demo_state) = TwoTiers"
    by (simp add: demo_state_def run_defs sys_defs)
  have c1: "charged MOS_MEMPOOL_SYSTEMMEMORY (reported demo_state) = 600"
    using u1 by (simp only: demo_state_facts)
  have c2: "charged MOS_MEMPOOL_VIDEOMEMORY (reported demo_state) = 600"
    using u2 by (simp only: demo_state_facts)
  have f600: "fst (m_allocate backend_ok key_ok 600 (imp demo_state)) = None"
    unfolding a600 by (simp add: demo_state_facts m)
  have f100: "fst (m_allocate backend_ok key_ok 100 (imp demo_state)) =
     Some \<lparr>handle = 1, pGmmResInfo = Some 4096\<rparr>"
    unfolding a100 by (simp add: demo_state_facts m backend_ok_def)
  show ?thesis
    by (intro conjI) (rule demo_state_facts c1 c2 f600 f100)+
qed

section \<open>One dump at a time, in the order of the queue\<close>

text \<open>
  Claim C7. In every state the pipeline reaches: at most one asynchronous dump task exists, and
  \<open>m_ready4Dump\<close> is set exactly when there is none; the buffer a task captured is the front
  of the queue, and once its \<open>DoDump\<close> has returned its job is the last one dumped; the jobs
  put into the queue are the jobs dumped so far followed by the jobs still to dump, in the same
  order (so jobs are dumped in the order of the queue, none twice and none skipped). The
  scheduler can dispatch only when there is no task, the new task captures the front of the
  queue, and dispatching does not pop. A task pops only after its dump: the step that pops
  belongs to the one task, whose job is the front and has been dumped, and it removes exactly
  the front.
\<close>

theorem single_flight_fifo:
  assumes "run as (start adapter cfg) = Some s"
  shows "length (workers s) \<le> 1 \<and>
         (m_ready4Dump (imp s) \<longleftrightarrow> workers s = []) \<and>
         (\<forall>w \<in> set (workers s).
            m_resQueue (imp s) \<noteq> [] \<and> hd (m_resQueue (imp s)) = fst (snd w) \<and>
            (snd (snd w) \<longrightarrow>
               dumped s \<noteq> [] \<and> last (dumped s) = job_of (imp s) (hd (m_resQueue (imp s))))) \<and>
         submitted s = dumped s @ map (job_of (imp s)) (pending s) \<and>
         (\<forall>s'. step Dispatch s = Some s' \<longrightarrow>
            workers s = [] \<and>
            workers s' = [(next_task s, hd (m_resQueue (imp s)), False)] \<and>
            m_resQueue (imp s') = m_resQueue (imp s)) \<and>
         (\<forall>t s'. step (Finish t) s = Some s' \<longrightarrow>
            workers s = [(t, hd (m_resQueue (imp s)), True)] \<and>
            last (dumped s) = job_of (imp s) (hd (m_resQueue (imp s))) \<and>
            m_resQueue (imp s') = tl (m_resQueue (imp s)) \<and>
            workers s' = [] \<and> dumped s' = dumped s)"
proof -
  from inv_run [OF assms] have sc: "sched_inv s" and fi: "fifo_inv s" and di: "done_inv s"
    by (simp_all add: pipeline_inv_def)
  note sd = sched_invD [OF sc]
  have w: "\<forall>w \<in> set (workers s).
            m_resQueue (imp s) \<noteq> [] \<and> hd (m_resQueue (imp s)) = fst (snd w) \<and>
            (snd (snd w) \<longrightarrow>
               dumped s \<noteq> [] \<and> last (dumped s) = job_of (imp s) (hd (m_resQueue (imp s))))"
  proof
    fix w assume w: "w \<in> set (workers s)"
    from sd(3) [OF w] have q: "m_resQueue (imp s) \<noteq> []" "hd (m_resQueue (imp s)) = fst (snd w)"
      by simp_all
    from di w have "snd (snd w) \<longrightarrow>
        dumped s \<noteq> [] \<and> last (dumped s) = job_of (imp s) (fst (snd w))"
      unfolding done_inv_def by blast
    with q show "m_resQueue (imp s) \<noteq> [] \<and> hd (m_resQueue (imp s)) = fst (snd w) \<and>
            (snd (snd w) \<longrightarrow>
               dumped s \<noteq> [] \<and> last (dumped s) = job_of (imp s) (hd (m_resQueue (imp s))))"
      by simp
  qed
  have f: "submitted s = dumped s @ map (job_of (imp s)) (pending s)"
    using fi by (simp add: fifo_inv_def)
  have d: "\<forall>s'. step Dispatch s = Some s' \<longrightarrow>
            workers s = [] \<and>
            workers s' = [(next_task s, hd (m_resQueue (imp s)), False)] \<and>
            m_resQueue (imp s') = m_resQueue (imp s)"
  proof (intro allI impI)
    fix s' assume st: "step Dispatch s = Some s'"
    then have r: "m_ready4Dump (imp s)" by (simp split: if_splits)
    with sd(2) have e: "workers s = []" by simp
    from st e show "workers s = [] \<and>
            workers s' = [(next_task s, hd (m_resQueue (imp s)), False)] \<and>
            m_resQueue (imp s') = m_resQueue (imp s)"
      by (auto split: if_splits)
  qed
  have fin: "\<forall>t s'. step (Finish t) s = Some s' \<longrightarrow>
            workers s = [(t, hd (m_resQueue (imp s)), True)] \<and>
            last (dumped s) = job_of (imp s) (hd (m_resQueue (imp s))) \<and>
            m_resQueue (imp s') = tl (m_resQueue (imp s)) \<and>
            workers s' = [] \<and> dumped s' = dumped s"
  proof (intro allI impI)
    fix t s' assume st: "step (Finish t) s = Some s'"
    then obtain qf where m: "map_of (workers s) t = Some (qf, True)"
      by (auto split: option.splits bool.splits)
    from single_worker [OF sd(1) m] have ws: "workers s = [(t, qf, True)]" .
    with w have q: "hd (m_resQueue (imp s)) = qf"
      "last (dumped s) = job_of (imp s) (hd (m_resQueue (imp s)))" by simp_all
    from st m ws have "m_resQueue (imp s') = tl (m_resQueue (imp s)) \<and>
            workers s' = [] \<and> dumped s' = dumped s"
      by (auto split: if_splits)
    with ws q show "workers s = [(t, hd (m_resQueue (imp s)), True)] \<and>
            last (dumped s) = job_of (imp s) (hd (m_resQueue (imp s))) \<and>
            m_resQueue (imp s') = tl (m_resQueue (imp s)) \<and>
            workers s' = [] \<and> dumped s' = dumped s"
      by simp
  qed
  show ?thesis
    by (intro conjI) (rule sd(1), rule sd(2), rule w, rule f, rule d, rule fin)
qed

theorem single_flight_fifo_witness:
  "length (workers demo_state) \<le> 1 \<and>
   submitted demo_state = [(0, ''first'', 0, 600), (1, ''second'', 0, 4)] \<and>
   dumped demo_state = [(0, ''first'', 0, 600)] \<and>
   map (job_of (imp demo_state)) (pending demo_state) = [(1, ''second'', 0, 4)]"
proof -
  note t = single_flight_fifo [OF demo_runs [unfolded demo_start_def]]
  note l = t [THEN conjunct1]
  note f = t [THEN conjunct2, THEN conjunct2, THEN conjunct2, THEN conjunct1]
  from f have p: "map (job_of (imp demo_state)) (pending demo_state) = [(1, ''second'', 0, 4)]"
    by (simp add: demo_state_facts)
  show ?thesis
    by (intro conjI) (rule l demo_state_facts p)+
qed

section \<open>Shutdown\<close>

text \<open>
  Claim C8. Let the pipeline have reached a state in which the scheduler, after the stop flag
  made it leave its loop, gets past \<open>future.wait()\<close> and runs its final loop. Then no dump
  task is in flight; the final loop runs \<open>DoDump\<close> on every buffer of the queue, front
  first, in the scheduler thread; afterwards the queue is empty, every job ever put into the queue has been
  dumped, in the order of submission, every buffer of every bucket of the pool (and every
  buffer ever made) is unoccupied, and the scheduler has stopped. Once the stop flag is set no
  dump is handed to an asynchronous task.
\<close>

theorem shutdown_drains:
  assumes "run as (start adapter cfg) = Some s"
    and "step (Shutdown be) s = Some s'"
  shows "workers s = [] \<and>
         sched s' = Stopped \<and>
         dumped s' = dumped s @ map (job_of (imp s)) (m_resQueue (imp s)) \<and>
         sunk s' = sunk s @ concat (map (DoDump be (imp s)) (m_resQueue (imp s))) \<and>
         m_resQueue (imp s') = [] \<and>
         submitted s' = dumped s' \<and>
         (\<forall>n \<in> set (m_resPool (imp s')). \<forall>a \<in> set (snd n). \<not> occupied (store (imp s') a)) \<and>
         (\<forall>a < store_next (imp s'). \<not> occupied (store (imp s') a)) \<and>
         (m_stopScheduler (imp s) \<longrightarrow> step Dispatch s = None)"
proof -
  from inv_run [OF assms(1)] have inv: "pipeline_inv s" .
  then have sc: "sched_inv s" and fi: "fifo_inv s" by (simp_all add: pipeline_inv_def)
  from assms(2) have g: "case future s of None \<Rightarrow> True | Some t \<Rightarrow> map_of (workers s) t = None"
    by (simp split: if_splits)
  from no_worker [OF sc g] have w: "workers s = []" .
  from assms(2) have s': "s' = s\<lparr>imp := fst (drain be (imp s)),
                     dumped := dumped s @ fst (snd (drain be (imp s))),
                     sunk := sunk s @ snd (snd (drain be (imp s))), sched := Stopped\<rparr>"
    by (simp split: if_splits prod.splits)
  from inv_Shutdown [OF inv assms(2)] have si': "store_inv (imp s')"
    by (simp add: pipeline_inv_def)
  have q': "m_resQueue (imp s') = []" by (simp add: s' drain_queue)
  have d': "dumped s' = dumped s @ map (job_of (imp s)) (m_resQueue (imp s))"
    by (simp add: s' drain_jobs)
  have sub: "submitted s' = dumped s'"
    using fi by (simp add: d' fifo_inv_def pending_def w) (simp add: s')
  have free: "\<forall>n \<in> set (m_resPool (imp s')). \<forall>a \<in> set (snd n). \<not> occupied (store (imp s') a)"
  proof (intro ballI)
    fix n a assume p: "n \<in> set (m_resPool (imp s'))" and a: "a \<in> set (snd n)"
    from store_inv_pool [OF si' p a] have "a < store_next (imp s')" .
    then show "\<not> occupied (store (imp s') a)"
      using store_inv_occupied [OF si', of a] q' by auto
  qed
  have made: "\<forall>a < store_next (imp s'). \<not> occupied (store (imp s') a)"
    using store_inv_occupied [OF si'] q' by auto
  have nd: "m_stopScheduler (imp s) \<longrightarrow> step Dispatch s = None" by simp
  show ?thesis
    by (intro conjI)
      (rule w, simp add: s', rule d', simp add: s' drain_out, rule q', rule sub, rule free,
        rule made, rule nd)
qed

theorem shutdown_drains_witness:
  "step (Shutdown backend_ok) demo_state \<noteq> None \<and>
   dumped (the (step (Shutdown backend_ok) demo_state)) =
     [(0, ''first'', 0, 600), (1, ''second'', 0, 4)] \<and>
   submitted (the (step (Shutdown backend_ok) demo_state)) =
     [(0, ''first'', 0, 600), (1, ''second'', 0, 4)] \<and>
   m_resQueue (imp (the (step (Shutdown backend_ok) demo_state))) = [] \<and>
   \<not> occupied (store (imp (the (step (Shutdown backend_ok) demo_state))) 0) \<and>
   \<not> occupied (store (imp (the (step (Shutdown backend_ok) demo_state))) 1)"
proof -
  have e: "step (Shutdown backend_ok) demo_state \<noteq> None"
    by (simp add: demo_state_facts split: prod.split)
  then obtain s' where s': "step (Shutdown backend_ok) demo_state = Some s'" by blast
  note t = shutdown_drains [OF demo_runs [unfolded demo_start_def] s']
  have p: "m_resPool (imp s') = [(key_ok, [0, 1])]"
    using s' drain_frame [of backend_ok "imp demo_state"]
    by (auto simp: demo_state_facts split: prod.splits)
  from t have "\<forall>n \<in> set (m_resPool (imp s')). \<forall>a \<in> set (snd n). \<not> occupied (store (imp s') a)"
    by (elim conjE)
  then have f: "\<not> occupied (store (imp s') 0) \<and> \<not> occupied (store (imp s') 1)"
    by (simp add: p)
  show ?thesis
    unfolding s' using t f by (simp add: demo_state_facts)
qed

end
